theory Spec2Isabelle
  imports Main "HOL-Library.Word" "HOL-Library.Char_ord" "HOL-Library.List_Lexorder"
begin

section \<open>ctxcat: path resolution and filtering\<close>

text \<open>
  A shallow embedding of \<^verbatim>\<open>internal/processor/processor.go\<close>, of
  \<^verbatim>\<open>internal/processor/formatter.go\<close>, and of the part of \<^verbatim>\<open>internal/cmd/root.go\<close>
  that sorts the resolved files, formats them and writes them out.

  The operating system and the two third-party libraries (doublestar, go-gitignore) are
  not part of the repository; they enter the model as the fields of a record \<open>env\<close>, one
  field per library call whose answer depends on the file system or on pattern syntax.
  The purely lexical functions of Go's \<^verbatim>\<open>path/filepath\<close> are written out for Unix
  (separator \<^verbatim>\<open>/\<close>, no volume names), and \<^verbatim>\<open>filepath.WalkDir\<close> is written out
  after the Go standard library.

  What the Go code keeps in mutable maps, or sends to the outside, is an explicit
  \<open>state\<close>: the cache of compiled .gitignore files, the map of collected files, and a
  log of the directory listings, the reads of file contents and of .gitignore files, and
  the warnings written to stderr. Calls that only look at metadata (\<^verbatim>\<open>os.Stat\<close>,
  \<^verbatim>\<open>os.Lstat\<close>, \<^verbatim>\<open>filepath.Abs\<close>) are not logged.

  The file system does not change during a run. The code takes its mutexes in a single
  goroutine, so they are left out. A \<^verbatim>\<open>Read\<close> of a regular file into a buffer of 1024
  bytes returns the first 1024 bytes of the file, or all of them when there are fewer.
\<close>

subsection \<open>Lexical path functions (Go path/filepath, Unix)\<close>

text \<open>\<^verbatim>\<open>strings.Split(p, "/")\<close>.\<close>

fun splitSlash :: "string \<Rightarrow> string list" where
  "splitSlash [] = [ [] ]"
| "splitSlash (c # cs) =
     (if c = CHR ''/'' then [] # splitSlash cs
      else (case splitSlash cs of [] \<Rightarrow> [ [c] ] | w # ws \<Rightarrow> (c # w) # ws))"

text \<open>\<^verbatim>\<open>strings.Join(cs, "/")\<close>.\<close>

fun joinSlash :: "string list \<Rightarrow> string" where
  "joinSlash [] = []"
| "joinSlash [c] = c"
| "joinSlash (c # d # cs) = c @ ''/'' @ joinSlash (d # cs)"

definition IsAbs :: "string \<Rightarrow> bool" where
  "IsAbs p = (case p of [] \<Rightarrow> False | c # _ \<Rightarrow> c = CHR ''/'')"

text \<open>
  The element-wise rules of \<^verbatim>\<open>filepath.Clean\<close>: empty and \<^verbatim>\<open>.\<close> elements are
  dropped, an inner \<^verbatim>\<open>..\<close> removes the element before it, a \<^verbatim>\<open>..\<close> at the start of
  a rooted path is dropped. The second argument is the stack of kept elements, last first.
\<close>

fun cleanElems :: "bool \<Rightarrow> string list \<Rightarrow> string list \<Rightarrow> string list" where
  "cleanElems rooted st [] = rev st"
| "cleanElems rooted st (c # cs) =
     (if c = [] \<or> c = ''.'' then cleanElems rooted st cs
      else if c = ''..'' then
        (case st of
           [] \<Rightarrow> if rooted then cleanElems rooted [] cs else cleanElems rooted [c] cs
         | t # ts \<Rightarrow> if t = ''..'' then cleanElems rooted (c # st) cs
                     else cleanElems rooted ts cs)
      else cleanElems rooted (c # st) cs)"

definition Clean :: "string \<Rightarrow> string" where
  "Clean p =
     (let out = joinSlash (cleanElems (IsAbs p) [] (splitSlash p))
      in if IsAbs p then CHR ''/'' # out else if out = [] then ''.'' else out)"

text \<open>\<^verbatim>\<open>filepath.Join\<close> of two elements: empty elements are ignored, the rest is cleaned.\<close>

definition Join :: "string \<Rightarrow> string \<Rightarrow> string" where
  "Join a b = (if a \<noteq> [] then Clean (a @ ''/'' @ b) else if b \<noteq> [] then Clean b else [])"

text \<open>Unix: the separator already is the slash.\<close>

definition ToSlash :: "string \<Rightarrow> string" where
  "ToSlash p = p"

text \<open>
  \<^verbatim>\<open>filepath.Rel(".", targpath)\<close>. Rel is lexical: with base \<^verbatim>\<open>.\<close> it answers the
  cleaned target, and fails when the cleaned target is rooted.
\<close>

definition RelDot :: "string \<Rightarrow> string option" where
  "RelDot targpath =
     (let targ = Clean targpath
      in if targ = ''.'' then Some ''.'' else if IsAbs targ then None else Some targ)"

text \<open>
  An absolute, cleaned path (a result of \<^verbatim>\<open>filepath.Abs\<close>) is kept as the list of its
  elements below the root; \<open>[]\<close> is the root \<^verbatim>\<open>/\<close>. On such paths \<^verbatim>\<open>filepath.Dir\<close>
  drops the last element and leaves the root as it is.
\<close>

type_synonym apath = "string list"

definition Dir :: "apath \<Rightarrow> apath" where
  "Dir p = butlast p"

fun stripCommon :: "apath \<Rightarrow> apath \<Rightarrow> apath \<times> apath" where
  "stripCommon (b # bs) (t # ts) = (if b = t then stripCommon bs ts else (b # bs, t # ts))"
| "stripCommon bs ts = (bs, ts)"

text \<open>
  \<^verbatim>\<open>filepath.Rel(base, targ)\<close> on absolute cleaned paths: the common prefix is dropped,
  each remaining element of the base becomes \<^verbatim>\<open>..\<close>, then the rest of the target
  follows; equal paths give \<^verbatim>\<open>.\<close>. Go's error returns need a relative argument or a
  \<^verbatim>\<open>..\<close> element in the base, which an absolute cleaned path never has, so the answer
  here is always \<open>Some\<close>.
\<close>

definition Rel :: "apath \<Rightarrow> apath \<Rightarrow> string option" where
  "Rel base targ =
     (case stripCommon base targ of
        (bs, ts) \<Rightarrow>
          (let out = replicate (length bs) ''..'' @ ts
           in Some (if out = [] then ''.'' else joinSlash out)))"

subsection \<open>Data model\<close>

text \<open>A compiled \<^verbatim>\<open>ignore.GitIgnore\<close> is represented by the pattern lines it was compiled from.\<close>

type_synonym GitIgnore = "string list"

text \<open>An opened file: its bytes, or a handle whose \<^verbatim>\<open>Read\<close> fails.\<close>

datatype fileh = Content "8 word list" | ReadErr

text \<open>
  A directory tree as \<^verbatim>\<open>os.Lstat\<close> and \<^verbatim>\<open>os.ReadDir\<close> show it to \<^verbatim>\<open>filepath.WalkDir\<close>:
  every entry has a name; a directory has a flag telling whether \<^verbatim>\<open>ReadDir\<close> succeeds
  on it, and its entries in the order \<^verbatim>\<open>ReadDir\<close> lists them.
\<close>

datatype node = File string | Dir_node string bool "node list"

fun Name :: "node \<Rightarrow> string" where
  "Name (File n) = n"
| "Name (Dir_node n r es) = n"

fun IsDir :: "node \<Rightarrow> bool" where
  "IsDir (File n) = False"
| "IsDir (Dir_node n r es) = True"

record env =
  FilepathGlob :: "string \<Rightarrow> string list option"
  PathMatch :: "string \<Rightarrow> string \<Rightarrow> bool option"
  MatchesPath :: "GitIgnore \<Rightarrow> string \<Rightarrow> bool"
  CompileIgnoreFile :: "apath \<Rightarrow> GitIgnore option"
  ScanLines :: "string \<Rightarrow> string list option"
  Stat :: "string \<Rightarrow> bool option"
  StatAbs :: "apath \<Rightarrow> bool option"
  Abs :: "string \<Rightarrow> apath option"
  Open :: "string \<Rightarrow> fileh option"
  Lstree :: "string \<Rightarrow> node option"
  rangeExpanded :: "string list \<Rightarrow> string list"
  rangeFinal :: "string list \<Rightarrow> string list"

text \<open>
  The fields of \<open>env\<close>:
  \<^item> \<open>FilepathGlob\<close>: \<^verbatim>\<open>doublestar.FilepathGlob\<close>; \<open>None\<close> is an error (bad pattern).
  \<^item> \<open>PathMatch pattern name\<close>: \<^verbatim>\<open>doublestar.PathMatch\<close>; \<open>None\<close> is an error.
  \<^item> \<open>MatchesPath\<close>: \<^verbatim>\<open>(*GitIgnore).MatchesPath\<close>.
  \<^item> \<open>CompileIgnoreFile\<close>: \<^verbatim>\<open>ignore.CompileIgnoreFile\<close> on an absolute file path;
    \<open>None\<close> when the file cannot be read.
  \<^item> \<open>ScanLines\<close>: \<^verbatim>\<open>os.Open\<close> followed by a \<^verbatim>\<open>bufio.Scanner\<close> over the lines;
    \<open>None\<close> when the file cannot be opened.
  \<^item> \<open>Stat\<close>, \<open>StatAbs\<close>: \<^verbatim>\<open>os.Stat\<close>; \<open>Some d\<close> tells whether the path is a directory.
  \<^item> \<open>Abs\<close>: \<^verbatim>\<open>filepath.Abs\<close>.
  \<^item> \<open>Open\<close>: \<^verbatim>\<open>os.Open\<close>.
  \<^item> \<open>Lstree\<close>: the tree below a path, as \<^verbatim>\<open>filepath.WalkDir\<close> gets it from
    \<^verbatim>\<open>os.Lstat\<close> and \<^verbatim>\<open>os.ReadDir\<close>; \<open>None\<close> when \<^verbatim>\<open>os.Lstat\<close> fails. The filter
    does not look at this tree: it asks \<open>Stat\<close>, \<open>StatAbs\<close> and \<open>Open\<close> by path.
  \<^item> \<open>rangeExpanded\<close>, \<open>rangeFinal\<close>: the order in which the two \<^verbatim>\<open>range\<close> loops of
    \<^verbatim>\<open>ProcessPaths\<close> enumerate the keys of their map, which Go leaves unspecified.
\<close>

record Config =
  NoRecursive :: bool
  NoGitignore :: bool
  IgnoreFiles :: "string list"
  ExcludeGlobs :: "string list"
  NoBinaryCheck :: bool

record FileProcessor =
  config :: Config
  customIgnoreMatcher :: "GitIgnore option"

datatype warning = IgnoreFileLoad string | InvalidGlob string | WalkError string
  | FormatError string

datatype event = ReadDirEv string | OpenEv string | ReadIgnoreEv apath | Warn warning

text \<open>
  The mutable part. \<open>ignoreMatcherCache\<close> is the field of that name of the Go struct
  (a \<^verbatim>\<open>nil\<close> matcher is \<open>None\<close>); \<open>finalFiles\<close> is the key set of the local map of
  \<^verbatim>\<open>ProcessPaths\<close>, kept duplicate-free; \<open>events\<close> is the log.
\<close>

record state =
  ignoreMatcherCache :: "apath \<rightharpoonup> GitIgnore option"
  events :: "event list"
  finalFiles :: "string list"

definition emit :: "event \<Rightarrow> state \<Rightarrow> state" where
  "emit ev s = s\<lparr>events := events s @ [ev]\<rparr>"

subsection \<open>The filter\<close>

text \<open>\<^verbatim>\<open>isExcluded\<close>: the loop over the exclude globs; an error of \<^verbatim>\<open>PathMatch\<close> is no match.\<close>

primrec excludedBy :: "env \<Rightarrow> string list \<Rightarrow> string \<Rightarrow> bool" where
  "excludedBy e [] path = False"
| "excludedBy e (pattern # rest) path =
     (if PathMatch e (ToSlash pattern) (ToSlash path) = Some True then True
      else excludedBy e rest path)"

definition isExcluded :: "env \<Rightarrow> FileProcessor \<Rightarrow> string \<Rightarrow> bool" where
  "isExcluded e p path = excludedBy e (ExcludeGlobs (config p)) path"

text \<open>\<^verbatim>\<open>file.Read\<close> into a buffer of 1024 bytes; \<open>None\<close> is an error other than EOF.\<close>

definition Read1024 :: "fileh \<Rightarrow> 8 word list option" where
  "Read1024 f = (case f of ReadErr \<Rightarrow> None | Content bs \<Rightarrow> Some (take 1024 bs))"

definition isBinary :: "env \<Rightarrow> string \<Rightarrow> state \<Rightarrow> bool \<times> state" where
  "isBinary e path s =
     (case Open e path of
        None \<Rightarrow> (False, emit (OpenEv path) s)
      | Some file \<Rightarrow>
          (case Read1024 file of
             None \<Rightarrow> (False, emit (OpenEv path) s)
           | Some buffer \<Rightarrow> (0 \<in> set buffer, emit (OpenEv path) s)))"

text \<open>
  \<^verbatim>\<open>getGitignoreMatcher\<close>. The Go function returns a pointer and a flag that is true
  exactly when the pointer is not \<^verbatim>\<open>nil\<close>; the model returns the option.
\<close>

definition getGitignoreMatcher :: "env \<Rightarrow> apath \<Rightarrow> state \<Rightarrow> GitIgnore option \<times> state" where
  "getGitignoreMatcher e dir s =
     (case ignoreMatcherCache s dir of
        Some matcher \<Rightarrow> (matcher, s)
      | None \<Rightarrow>
          (let gitignorePath = dir @ [''.gitignore''];
               matcher = CompileIgnoreFile e gitignorePath
           in (matcher,
               emit (ReadIgnoreEv gitignorePath)
                 (s\<lparr>ignoreMatcherCache := (ignoreMatcherCache s)(dir \<mapsto> matcher)\<rparr>))))"

text \<open>
  The loop of \<^verbatim>\<open>isGitignored\<close>. The branch \<^verbatim>\<open>continue\<close> taken on an error of
  \<^verbatim>\<open>filepath.Rel\<close> repeats the iteration with the same directory.
\<close>

function ascend :: "env \<Rightarrow> apath \<Rightarrow> apath \<Rightarrow> state \<Rightarrow> bool \<times> state" where
  "ascend e absPath currentDir s =
     (case getGitignoreMatcher e currentDir s of
        (m, s1) \<Rightarrow>
          (case m of
             Some matcher \<Rightarrow>
               (case Rel currentDir absPath of
                  None \<Rightarrow> ascend e absPath currentDir s1
                | Some relativePath \<Rightarrow>
                    if MatchesPath e matcher (ToSlash relativePath) then (True, s1)
                    else if Dir currentDir = currentDir then (False, s1)
                    else ascend e absPath (Dir currentDir) s1)
           | None \<Rightarrow>
               if Dir currentDir = currentDir then (False, s1)
               else ascend e absPath (Dir currentDir) s1))"
  by pat_completeness auto
termination
proof (relation "measure (\<lambda>(e, absPath, currentDir, s). length currentDir)")
  show "wf (measure (\<lambda>(e, absPath, currentDir, s). length currentDir))"
    by simp
next
  fix e :: env and absPath currentDir :: apath and s s1 :: state
  assume "Rel currentDir absPath = None"
  then show "((e, absPath, currentDir, s1), (e, absPath, currentDir, s))
      \<in> measure (\<lambda>(e, absPath, currentDir, s). length currentDir)"
    by (simp add: Rel_def split: prod.splits)
next
  fix e :: env and absPath currentDir :: apath and s1 :: state
  assume "Dir currentDir \<noteq> currentDir"
  then have "currentDir \<noteq> []"
    by (auto simp: Dir_def)
  then show "((e, absPath, Dir currentDir, s1), (e, absPath, currentDir, s))
      \<in> measure (\<lambda>(e, absPath, currentDir, s). length currentDir)" for s :: state
    by (simp add: Dir_def)
next
  fix e :: env and absPath currentDir :: apath and s1 :: state
  assume "Dir currentDir \<noteq> currentDir"
  then have "currentDir \<noteq> []"
    by (auto simp: Dir_def)
  then show "((e, absPath, Dir currentDir, s1), (e, absPath, currentDir, s))
      \<in> measure (\<lambda>(e, absPath, currentDir, s). length currentDir)" for s :: state
    by (simp add: Dir_def)
qed

definition isGitignored :: "env \<Rightarrow> FileProcessor \<Rightarrow> string \<Rightarrow> state \<Rightarrow> bool \<times> state" where
  "isGitignored e p path s =
     (if NoGitignore (config p) then (False, s)
      else
        (case Abs e path of
           None \<Rightarrow> (False, s)
         | Some absPath \<Rightarrow>
             (let currentDir = (case StatAbs e absPath of
                                  Some False \<Rightarrow> Dir absPath
                                | _ \<Rightarrow> absPath)
              in ascend e absPath currentDir s)))"

definition shouldSkipDir :: "env \<Rightarrow> FileProcessor \<Rightarrow> string \<Rightarrow> state \<Rightarrow> bool \<times> state" where
  "shouldSkipDir e p path s =
     (if isExcluded e p path then (True, s)
      else
        (case customIgnoreMatcher p of
           Some matcher \<Rightarrow>
             (let relPath = (case RelDot path of None \<Rightarrow> path | Some r \<Rightarrow> r)
              in if MatchesPath e matcher (ToSlash relPath) then (True, s)
                 else isGitignored e p path s)
         | None \<Rightarrow> isGitignored e p path s))"

definition shouldInclude :: "env \<Rightarrow> FileProcessor \<Rightarrow> string \<Rightarrow> state \<Rightarrow> bool \<times> state" where
  "shouldInclude e p path s =
     (case shouldSkipDir e p path s of
        (skip, s1) \<Rightarrow>
          if skip then (False, s1)
          else if \<not> NoBinaryCheck (config p) then
            (case isBinary e path s1 of
               (binary, s2) \<Rightarrow> if binary then (False, s2) else (True, s2))
          else (True, s1))"

subsection \<open>Construction\<close>

text \<open>
  The loop of \<^verbatim>\<open>New\<close> over the custom ignore files; \<^verbatim>\<open>ignore.CompileIgnoreLines\<close>
  keeps the collected lines.
\<close>

fun loadIgnoreFiles :: "env \<Rightarrow> string list \<Rightarrow> string list \<Rightarrow> state \<Rightarrow> string list \<times> state" where
  "loadIgnoreFiles e [] allPatterns s = (allPatterns, s)"
| "loadIgnoreFiles e (file # files) allPatterns s =
     (case ScanLines e file of
        None \<Rightarrow> loadIgnoreFiles e files allPatterns (emit (Warn (IgnoreFileLoad file)) s)
      | Some ls \<Rightarrow> loadIgnoreFiles e files (allPatterns @ ls) s)"

definition emptyState :: state where
  "emptyState = \<lparr>ignoreMatcherCache = Map.empty, events = [], finalFiles = []\<rparr>"

definition New :: "env \<Rightarrow> Config \<Rightarrow> FileProcessor \<times> state" where
  "New e cfg =
     (let s0 = emptyState
      in if IgnoreFiles cfg \<noteq> [] then
           (case loadIgnoreFiles e (IgnoreFiles cfg) [] s0 of
              (allPatterns, s1) \<Rightarrow>
                (\<lparr>config = cfg,
                  customIgnoreMatcher = (if allPatterns \<noteq> [] then Some allPatterns else None)\<rparr>,
                 s1))
         else (\<lparr>config = cfg, customIgnoreMatcher = None\<rparr>, s0))"

subsection \<open>The walk\<close>

text \<open>
  What a \<^verbatim>\<open>fs.WalkDirFunc\<close> returns: \<^verbatim>\<open>nil\<close>, \<^verbatim>\<open>filepath.SkipDir\<close>, or another error.
\<close>

datatype walkres = Ok | SkipDir | Failed

text \<open>
  The closure that \<^verbatim>\<open>ProcessPaths\<close> passes to \<^verbatim>\<open>filepath.WalkDir\<close>; \<open>path\<close> is the
  directory the walk started from, \<open>isDir\<close> is \<^verbatim>\<open>d.IsDir()\<close>, \<open>err\<close> tells whether the
  error argument is set.
\<close>

definition walkFn ::
  "env \<Rightarrow> FileProcessor \<Rightarrow> string \<Rightarrow> string \<Rightarrow> bool \<Rightarrow> bool \<Rightarrow> state \<Rightarrow> walkres \<times> state" where
  "walkFn e p path currentPath isDir err s =
     (if err then (Failed, s)
      else if isDir then
        (if currentPath \<noteq> path then
           (case shouldSkipDir e p currentPath s of
              (skip, s1) \<Rightarrow> if skip then (SkipDir, s1) else (Ok, s1))
         else (Ok, s))
      else
        (case shouldInclude e p currentPath s of
           (inc, s1) \<Rightarrow>
             if inc then (Ok, s1\<lparr>finalFiles := List.insert currentPath (finalFiles s1)\<rparr>)
             else (Ok, s1)))"

text \<open>
  \<^verbatim>\<open>walkDir\<close> of Go's \<^verbatim>\<open>path/filepath\<close>: the function is called on the entry; a
  directory it accepts is listed (when listing fails the function is called a second time,
  with the error), and the entries are walked in order until one of them fails.
  \<^verbatim>\<open>SkipDir\<close> from a directory skips that directory, from a file it skips the rest of
  the listing.
\<close>

fun walkDir :: "env \<Rightarrow> FileProcessor \<Rightarrow> string \<Rightarrow> string \<Rightarrow> node \<Rightarrow> state \<Rightarrow> walkres \<times> state"
  and walkEntries ::
    "env \<Rightarrow> FileProcessor \<Rightarrow> string \<Rightarrow> string \<Rightarrow> node list \<Rightarrow> state \<Rightarrow> walkres \<times> state" where
  "walkDir e p root path (File n) s = walkFn e p root path False False s"
| "walkDir e p root path (Dir_node n readable dirs) s =
     (case walkFn e p root path True False s of
        (r, s1) \<Rightarrow>
          if r \<noteq> Ok then (if r = SkipDir then Ok else r, s1)
          else if readable then walkEntries e p root path dirs (emit (ReadDirEv path) s1)
          else
            (case walkFn e p root path True True (emit (ReadDirEv path) s1) of
               (r2, s2) \<Rightarrow>
                 if r2 \<noteq> Ok then (if r2 = SkipDir then Ok else r2, s2)
                 else walkEntries e p root path [] s2))"
| "walkEntries e p root path [] s = (Ok, s)"
| "walkEntries e p root path (d1 # rest) s =
     (case walkDir e p root (Join path (Name d1)) d1 s of
        (r, s1) \<Rightarrow>
          if r = Ok then walkEntries e p root path rest s1
          else if r = SkipDir then (Ok, s1)
          else (r, s1))"

text \<open>\<^verbatim>\<open>filepath.WalkDir\<close>.\<close>

definition WalkDir :: "env \<Rightarrow> FileProcessor \<Rightarrow> string \<Rightarrow> state \<Rightarrow> walkres \<times> state" where
  "WalkDir e p root s =
     (case Lstree e root of
        None \<Rightarrow>
          (case walkFn e p root root False True s of
             (r, s1) \<Rightarrow> (if r = SkipDir then Ok else r, s1))
      | Some d \<Rightarrow>
          (case walkDir e p root root d s of
             (r, s1) \<Rightarrow> (if r = SkipDir then Ok else r, s1)))"

subsection \<open>ProcessPaths\<close>

text \<open>\<^verbatim>\<open>strings.Contains\<close>.\<close>

primrec Contains :: "string \<Rightarrow> string \<Rightarrow> bool" where
  "Contains [] substr = (substr = [])"
| "Contains (c # cs) substr = (take (length substr) (c # cs) = substr \<or> Contains cs substr)"

text \<open>The first loop: glob expansion into the key set of \<^verbatim>\<open>expandedPaths\<close>.\<close>

fun expandAll :: "env \<Rightarrow> string list \<Rightarrow> string list \<Rightarrow> state \<Rightarrow> string list \<times> state" where
  "expandAll e [] expandedPaths s = (expandedPaths, s)"
| "expandAll e (path # paths) expandedPaths s =
     (case FilepathGlob e path of
        None \<Rightarrow> expandAll e paths expandedPaths (emit (Warn (InvalidGlob path)) s)
      | Some matches \<Rightarrow> expandAll e paths (fold List.insert matches expandedPaths) s)"

text \<open>
  The body of the second loop. The block guarded by \<^verbatim>\<open>NoRecursive\<close> is empty in the
  source: whichever way the test goes, the state is the one before it.
\<close>

definition processPath :: "env \<Rightarrow> FileProcessor \<Rightarrow> string \<Rightarrow> state \<Rightarrow> state" where
  "processPath e p path s =
     (case Stat e path of
        None \<Rightarrow> s
      | Some False \<Rightarrow>
          (case shouldInclude e p path s of
             (inc, s1) \<Rightarrow>
               if inc then s1\<lparr>finalFiles := List.insert path (finalFiles s1)\<rparr> else s1)
      | Some True \<Rightarrow>
          (let isRecursivePattern = Contains path ''**'';
               s0 = (if NoRecursive (config p) \<and> \<not> isRecursivePattern then s else s)
           in (case WalkDir e p path s0 of
                 (walkErr, s1) \<Rightarrow>
                   if walkErr \<noteq> Ok then emit (Warn (WalkError path)) s1 else s1)))"

definition ProcessPaths :: "env \<Rightarrow> FileProcessor \<Rightarrow> string list \<Rightarrow> state \<Rightarrow> string list \<times> state" where
  "ProcessPaths e p paths s =
     (case expandAll e paths [] s of
        (expandedPaths, s1) \<Rightarrow>
          (let s2 = fold (processPath e p) (rangeExpanded e expandedPaths) (s1\<lparr>finalFiles := []\<rparr>)
           in (rangeFinal e (finalFiles s2), s2)))"

text \<open>
  Steps 2 to 4 of \<^verbatim>\<open>rootCmd\<close>: a new processor, \<^verbatim>\<open>ProcessPaths\<close>, then
  \<^verbatim>\<open>sort.Strings\<close> (bytewise lexicographic order).
\<close>

definition resolve :: "env \<Rightarrow> Config \<Rightarrow> string list \<Rightarrow> string list \<times> state" where
  "resolve e cfg paths =
     (case New e cfg of
        (proc, s0) \<Rightarrow>
          (case ProcessPaths e proc paths s0 of
             (files, s1) \<Rightarrow> (sort files, s1)))"

subsection \<open>Formatting and output\<close>











subsection \<open>A concrete file system\<close>

text \<open>
  A small file system for evaluating the model, with working directory \<^verbatim>\<open>/w\<close>:
  \<^verbatim>\<open>
  /w/.gitignore            one line: dist
  /w/.myignore             one line: guide.md
  /w/other/.myignore       one line: guide.md
  /w/proj/dist/.gitignore  one line: tmp
  /w/proj/dist/bundle.js
  /w/proj/docs/guide.md
  /w/proj/file1.txt
  /w/data/bin.dat          bytes 98 0 99
  /w/data/secret.key       bytes 115 0 107, cannot be opened
  /w/data/text.txt
  /w/priv/a.txt
  /w/priv/locked/          cannot be listed
  /w/priv/z.txt
  \<close>
  The tree \<open>rootTree\<close> holds the entries, in the order \<^verbatim>\<open>os.ReadDir\<close> lists them
  (sorted by name); \<open>storedW\<close> holds, for every file, whether it can be opened, and its
  bytes.
  Patterns without metacharacters are all it uses: such a glob names one path, such an
  exclude pattern matches by equality, and such a .gitignore line (a plain name)
  matches every path that has the name as one of its elements.
\<close>

definition absW :: "string \<Rightarrow> apath" where
  "absW p = filter (\<lambda>c. c \<noteq> []) (splitSlash (Clean (if IsAbs p then p else ''/w/'' @ p)))"

definition storedW :: "(apath \<times> bool \<times> 8 word list) list" where
  "storedW =
     [([''w'', ''.gitignore''], True, [100, 105, 115, 116, 10]),
      ([''w'', ''.myignore''], True, [103, 117, 105, 100, 101, 46, 109, 100, 10]),
      ([''w'', ''other'', ''.myignore''], True, [103, 117, 105, 100, 101, 46, 109, 100, 10]),
      ([''w'', ''proj'', ''dist'', ''.gitignore''], True, [116, 109, 112, 10]),
      ([''w'', ''proj'', ''dist'', ''bundle.js''], True, [106, 115]),
      ([''w'', ''proj'', ''docs'', ''guide.md''], True, [35, 32, 103]),
      ([''w'', ''proj'', ''file1.txt''], True, [104, 105]),
      ([''w'', ''data'', ''bin.dat''], True, [98, 0, 99]),
      ([''w'', ''data'', ''secret.key''], False, [115, 0, 107]),
      ([''w'', ''data'', ''text.txt''], True, [116, 120, 116]),
      ([''w'', ''priv'', ''a.txt''], True, [97]),
      ([''w'', ''priv'', ''z.txt''], True, [122])]"

definition projTree :: node where
  "projTree = Dir_node ''proj'' True
     [Dir_node ''dist'' True [File ''.gitignore'', File ''bundle.js''],
      Dir_node ''docs'' True [File ''guide.md''],
      File ''file1.txt'']"

definition dataTree :: node where
  "dataTree = Dir_node ''data'' True [File ''bin.dat'', File ''secret.key'', File ''text.txt'']"

definition privTree :: node where
  "privTree = Dir_node ''priv'' True
     [File ''a.txt'', Dir_node ''locked'' False [], File ''z.txt'']"

definition rootTree :: node where
  "rootTree = Dir_node ''/'' True
     [Dir_node ''w'' True
        [File ''.gitignore'', File ''.myignore'', dataTree,
         Dir_node ''other'' True [File ''.myignore''], privTree, projTree]]"

text \<open>The entry of a given name in a listing, and the node at a path below a node.\<close>

fun findEntry :: "string \<Rightarrow> node list \<Rightarrow> node option" where
  "findEntry n [] = None"
| "findEntry n (d # ds) = (if Name d = n then Some d else findEntry n ds)"

fun subtree :: "node \<Rightarrow> apath \<Rightarrow> node option" where
  "subtree nd [] = Some nd"
| "subtree (File n) (c # cs) = None"
| "subtree (Dir_node n r ds) (c # cs) =
     (case findEntry c ds of None \<Rightarrow> None | Some d \<Rightarrow> subtree d cs)"

definition statW :: "apath \<Rightarrow> bool option" where
  "statW a = map_option IsDir (subtree rootTree a)"

definition envW :: env where
  "envW = \<lparr>
     FilepathGlob = (\<lambda>pat. if pat = ''['' then None
                           else if statW (absW pat) = None then Some [] else Some [Clean pat]),
     PathMatch = (\<lambda>pat name. Some (pat = name)),
     MatchesPath = (\<lambda>lines rel. list_ex (\<lambda>l. l \<in> set (splitSlash rel)) lines),
     CompileIgnoreFile = (\<lambda>a. if a = [''w'', ''.gitignore''] then Some [''dist'']
                              else if a = [''w'', ''proj'', ''dist'', ''.gitignore''] then Some [''tmp'']
                              else None),
     ScanLines = (\<lambda>f. if absW f = [''w'', ''.myignore''] \<or> absW f = [''w'', ''other'', ''.myignore'']
                        then Some [''guide.md''] else None),
     Stat = (\<lambda>p. statW (absW p)),
     StatAbs = statW,
     Abs = (\<lambda>p. Some (absW p)),
     Open = (\<lambda>p. case map_of storedW (absW p) of
                     Some (True, bs) \<Rightarrow> Some (Content bs)
                   | _ \<Rightarrow> None),
     Lstree = (\<lambda>p. subtree rootTree (absW p)),
     rangeExpanded = (\<lambda>keys. keys),
     rangeFinal = rev \<rparr>"

definition cfgDefault :: Config where
  "cfgDefault = \<lparr>NoRecursive = False, NoGitignore = False, IgnoreFiles = [],
                  ExcludeGlobs = [], NoBinaryCheck = False\<rparr>"

definition cfgStages :: Config where
  "cfgStages = \<lparr>NoRecursive = False, NoGitignore = False, IgnoreFiles = [''.myignore''],
                 ExcludeGlobs = [''proj/file1.txt''], NoBinaryCheck = False\<rparr>"

definition cfgExcludeDist :: Config where
  "cfgExcludeDist = \<lparr>NoRecursive = False, NoGitignore = True, IgnoreFiles = [],
                      ExcludeGlobs = [''proj/dist''], NoBinaryCheck = False\<rparr>"

text \<open>The processor with its \<open>NoRecursive\<close> option set as given.\<close>

definition setNoRecursive :: "bool \<Rightarrow> FileProcessor \<Rightarrow> FileProcessor" where
  "setNoRecursive b p = p\<lparr>config := (config p)\<lparr>NoRecursive := b\<rparr>\<rparr>"

subsection \<open>The filter as the specification words it\<close>

text \<open>
  Stage 1: some exclude-glob pattern of the configuration matches the path.
\<close>

definition excludeMatches :: "env \<Rightarrow> FileProcessor \<Rightarrow> string \<Rightarrow> bool" where
  "excludeMatches e p path =
     list_ex (\<lambda>pattern. PathMatch e pattern path = Some True) (ExcludeGlobs (config p))"

text \<open>
  Stage 2: there is a compiled custom matcher, and it matches the path made relative to
  the working directory (the path as given when it cannot be made relative).
\<close>

definition customMatches :: "env \<Rightarrow> GitIgnore option \<Rightarrow> string \<Rightarrow> bool" where
  "customMatches e cm path =
     (case cm of
        None \<Rightarrow> False
      | Some matcher \<Rightarrow>
          MatchesPath e matcher (ToSlash (case RelDot path of None \<Rightarrow> path | Some r \<Rightarrow> r)))"

text \<open>All lines of the custom ignore files that can be opened, in the order of the files.\<close>

definition allIgnoreLines :: "env \<Rightarrow> string list \<Rightarrow> string list" where
  "allIgnoreLines e files =
     concat (map (\<lambda>f. case ScanLines e f of None \<Rightarrow> [] | Some ls \<Rightarrow> ls) files)"

subsection \<open>The .gitignore hierarchy as the specification words it\<close>

text \<open>
  The cache agrees with the file system: a cached entry for a directory is what compiling
  that directory's .gitignore gives.
\<close>

definition cacheOk :: "env \<Rightarrow> state \<Rightarrow> bool" where
  "cacheOk e s =
     (\<forall>dir m. ignoreMatcherCache s dir = Some m \<longrightarrow> m = CompileIgnoreFile e (dir @ [''.gitignore'']))"

text \<open>The chain of directories from a directory up to the root.\<close>

function ancestorsOf :: "apath \<Rightarrow> apath list" where
  "ancestorsOf d = (if Dir d = d then [d] else d # ancestorsOf (Dir d))"
  by pat_completeness auto
termination
proof (relation "measure length")
  show "wf (measure length)"
    by simp
next
  fix d :: apath
  assume "Dir d \<noteq> d"
  then have "d \<noteq> []"
    by (auto simp: Dir_def)
  then show "(Dir d, d) \<in> measure length"
    by (simp add: Dir_def)
qed

text \<open>A path below (or equal to) a directory, written relative to that directory.\<close>

definition relativeTo :: "apath \<Rightarrow> apath \<Rightarrow> string" where
  "relativeTo d absPath =
     (if drop (length d) absPath = [] then ''.'' else joinSlash (drop (length d) absPath))"

text \<open>The .gitignore of directory \<open>d\<close> exists and matches the path relative to \<open>d\<close>.\<close>

definition ignoredAt :: "env \<Rightarrow> apath \<Rightarrow> apath \<Rightarrow> bool" where
  "ignoredAt e absPath d =
     (case CompileIgnoreFile e (d @ [''.gitignore'']) of
        None \<Rightarrow> False
      | Some matcher \<Rightarrow> MatchesPath e matcher (relativeTo d absPath))"

text \<open>Where the ascent starts: the directory of a file, the path itself otherwise.\<close>

definition startDir :: "env \<Rightarrow> apath \<Rightarrow> apath" where
  "startDir e absPath = (if StatAbs e absPath = Some False then Dir absPath else absPath)"

text \<open>The attempt to read the .gitignore of a directory, as it appears in the log.\<close>

definition probe :: "apath \<Rightarrow> event" where
  "probe d = ReadIgnoreEv (d @ [''.gitignore''])"

text \<open>
  The verdicts of the filter as functions of the file system alone: some directory on the
  ancestor chain ignores the path; some stage of 1 to 3 excludes it; the first 1024 bytes
  that can be read hold a zero byte; no stage excludes it.
\<close>

definition gitignoredSpec :: "env \<Rightarrow> FileProcessor \<Rightarrow> string \<Rightarrow> bool" where
  "gitignoredSpec e p path =
     (\<not> NoGitignore (config p) \<and>
      (case Abs e path of
         None \<Rightarrow> False
       | Some absPath \<Rightarrow> list_ex (ignoredAt e absPath) (ancestorsOf (startDir e absPath))))"

definition skipSpec :: "env \<Rightarrow> FileProcessor \<Rightarrow> string \<Rightarrow> bool" where
  "skipSpec e p path =
     (excludeMatches e p path \<or> customMatches e (customIgnoreMatcher p) path
      \<or> gitignoredSpec e p path)"

definition binaryContent :: "env \<Rightarrow> string \<Rightarrow> bool" where
  "binaryContent e path =
     (case Open e path of
        None \<Rightarrow> False
      | Some file \<Rightarrow> (case Read1024 file of None \<Rightarrow> False | Some buffer \<Rightarrow> 0 \<in> set buffer))"

text \<open>
  Stage 4 in the words of the specification: the file can be read, and one of its first
  min(size, 1024) bytes is zero.
\<close>

definition zeroInHead :: "env \<Rightarrow> string \<Rightarrow> bool" where
  "zeroInHead e path =
     (case Open e path of
        Some (Content bs) \<Rightarrow> 0 \<in> set (take (min (length bs) 1024) bs)
      | _ \<Rightarrow> False)"

definition passesFilter :: "env \<Rightarrow> FileProcessor \<Rightarrow> string \<Rightarrow> bool" where
  "passesFilter e p path =
     (if skipSpec e p path then False
      else if NoBinaryCheck (config p) then True
      else if binaryContent e path then False else True)"

subsection \<open>The walk and the resolver as functions of the file system alone\<close>

text \<open>
  What one walk contributes, and whether it ends with an error: a file contributes its
  path when it passes the filter; a directory other than the start that stages 1 to 3
  exclude contributes nothing; a directory that cannot be listed ends the walk; otherwise
  the entries contribute in order, up to the first that ends the walk.
\<close>

fun walkDirSpec :: "env \<Rightarrow> FileProcessor \<Rightarrow> string \<Rightarrow> string \<Rightarrow> node \<Rightarrow> walkres \<times> string list"
  and walkEntriesSpec ::
    "env \<Rightarrow> FileProcessor \<Rightarrow> string \<Rightarrow> string \<Rightarrow> node list \<Rightarrow> walkres \<times> string list" where
  "walkDirSpec e p root path (File n) = (Ok, if passesFilter e p path then [path] else [])"
| "walkDirSpec e p root path (Dir_node n readable dirs) =
     (if path \<noteq> root \<and> skipSpec e p path then (Ok, [])
      else if readable then walkEntriesSpec e p root path dirs
      else (Failed, []))"
| "walkEntriesSpec e p root path [] = (Ok, [])"
| "walkEntriesSpec e p root path (d1 # rest) =
     (case walkDirSpec e p root (Join path (Name d1)) d1 of
        (r, fs) \<Rightarrow>
          if r = Ok then
            (case walkEntriesSpec e p root path rest of (r2, fs2) \<Rightarrow> (r2, fs @ fs2))
          else (r, fs))"

definition WalkDirSpec :: "env \<Rightarrow> FileProcessor \<Rightarrow> string \<Rightarrow> walkres \<times> string list" where
  "WalkDirSpec e p root =
     (case Lstree e root of None \<Rightarrow> (Failed, []) | Some d \<Rightarrow> walkDirSpec e p root root d)"

text \<open>The files one candidate contributes, and the candidates of a list of inputs.\<close>

definition candidateFiles :: "env \<Rightarrow> FileProcessor \<Rightarrow> string \<Rightarrow> string list" where
  "candidateFiles e p path =
     (case Stat e path of
        None \<Rightarrow> []
      | Some False \<Rightarrow> if passesFilter e p path then [path] else []
      | Some True \<Rightarrow> snd (WalkDirSpec e p path))"

definition candidates :: "env \<Rightarrow> string list \<Rightarrow> string list" where
  "candidates e paths =
     concat (map (\<lambda>path. case FilepathGlob e path of None \<Rightarrow> [] | Some matches \<Rightarrow> matches) paths)"

text \<open>A \<^verbatim>\<open>range\<close> over a map visits every key, and each key once.\<close>

definition enumerates :: "(string list \<Rightarrow> string list) \<Rightarrow> bool" where
  "enumerates f = (\<forall>keys. set (f keys) = set keys \<and> (distinct keys \<longrightarrow> distinct (f keys)))"

text \<open>
  A run of the walk from state \<open>s\<close> agrees with what the file system alone determines:
  the same outcome, the contributed files added to the collected ones, the cache still in
  agreement with the file system, the collected files still free of duplicates.
\<close>

definition walkAgrees :: "env \<Rightarrow> state \<Rightarrow> walkres \<times> state \<Rightarrow> walkres \<times> string list \<Rightarrow> bool" where
  "walkAgrees e s out spec =
     (fst out = fst spec
      \<and> set (finalFiles (snd out)) = set (finalFiles s) \<union> set (snd spec)
      \<and> cacheOk e (snd out)
      \<and> (distinct (finalFiles s) \<longrightarrow> distinct (finalFiles (snd out))))"

text \<open>The log of the second state is the log of the first, with more events after it.\<close>

definition logGrows :: "state \<Rightarrow> state \<Rightarrow> bool" where
  "logGrows s s' = (\<exists>evs. events s' = events s @ evs)"

section \<open>Properties\<close>

lemma loadIgnoreFiles_lines:
  "fst (loadIgnoreFiles e files acc s) = acc @ allIgnoreLines e files"
  by (induction files arbitrary: acc s) (simp_all add: allIgnoreLines_def split: option.splits)

lemma New_customIgnoreMatcher:
  "customIgnoreMatcher (fst (New e cfg)) =
     (if allIgnoreLines e (IgnoreFiles cfg) = [] then None
      else Some (allIgnoreLines e (IgnoreFiles cfg)))"
proof (cases "IgnoreFiles cfg = []")
  case True
  then show ?thesis by (simp add: New_def allIgnoreLines_def)
next
  case False
  then show ?thesis
    using loadIgnoreFiles_lines[of e "IgnoreFiles cfg" "[]" emptyState]
    by (simp add: New_def Let_def case_prod_beta)
qed

text \<open>
  C10. Stage 2 applies the one matcher compiled from all lines of the custom ignore
  files to the path made relative to the working directory (\<^verbatim>\<open>filepath.Rel(".", path)\<close>,
  or the path as given when that fails). The location of an ignore file plays no part:
  ignore files with the same lines give the same verdicts.
\<close>

theorem custom_ignore_cwd_relative:
  "shouldSkipDir e (fst (New e cfg)) path s =
     (if isExcluded e (fst (New e cfg)) path then (True, s)
      else if allIgnoreLines e (IgnoreFiles cfg) \<noteq> []
              \<and> MatchesPath e (allIgnoreLines e (IgnoreFiles cfg))
                    (ToSlash (case RelDot path of None \<Rightarrow> path | Some r \<Rightarrow> r))
           then (True, s)
      else isGitignored e (fst (New e cfg)) path s)
   \<and> (allIgnoreLines e fs = allIgnoreLines e (IgnoreFiles cfg) \<longrightarrow>
        shouldSkipDir e (fst (New e (cfg\<lparr>IgnoreFiles := fs\<rparr>))) path s
        = shouldSkipDir e (fst (New e cfg)) path s)"
proof -
  have form: "shouldSkipDir e (fst (New e c)) path s =
     (if isExcluded e (fst (New e c)) path then (True, s)
      else if allIgnoreLines e (IgnoreFiles c) \<noteq> []
              \<and> MatchesPath e (allIgnoreLines e (IgnoreFiles c))
                    (ToSlash (case RelDot path of None \<Rightarrow> path | Some r \<Rightarrow> r))
           then (True, s)
      else isGitignored e (fst (New e c)) path s)" for c
    by (simp add: shouldSkipDir_def New_customIgnoreMatcher Let_def)
  have cfg: "config (fst (New e c)) = c" for c
    by (simp add: New_def Let_def case_prod_beta)
  have "shouldSkipDir e (fst (New e (cfg\<lparr>IgnoreFiles := fs\<rparr>))) path s
        = shouldSkipDir e (fst (New e cfg)) path s"
    if "allIgnoreLines e fs = allIgnoreLines e (IgnoreFiles cfg)"
    using that by (simp add: form isExcluded_def isGitignored_def cfg)
  with form[of cfg] show ?thesis by blast
qed

theorem custom_ignore_cwd_relative_witness:
  "allIgnoreLines envW [''other/.myignore''] = allIgnoreLines envW [''.myignore'']
   \<and> RelDot ''./proj/docs/guide.md'' = Some ''proj/docs/guide.md''
   \<and> fst (shouldSkipDir envW (fst (New envW (cfgDefault\<lparr>IgnoreFiles := [''.myignore'']\<rparr>)))
            ''./proj/docs/guide.md'' emptyState)
   \<and> fst (shouldSkipDir envW (fst (New envW (cfgDefault\<lparr>IgnoreFiles := [''other/.myignore'']\<rparr>)))
            ''./proj/docs/guide.md'' emptyState)"
proof -
  let ?cfg = "cfgDefault\<lparr>IgnoreFiles := [''.myignore'']\<rparr>"
  have l: "allIgnoreLines envW [''other/.myignore''] = allIgnoreLines envW (IgnoreFiles ?cfg)"
    by code_simp
  have r: "RelDot ''./proj/docs/guide.md'' = Some ''proj/docs/guide.md''"
    by code_simp
  have k: "fst (shouldSkipDir envW (fst (New envW ?cfg)) ''./proj/docs/guide.md'' emptyState)"
    by code_simp
  have u: "?cfg\<lparr>IgnoreFiles := [''other/.myignore'']\<rparr>
           = cfgDefault\<lparr>IgnoreFiles := [''other/.myignore'']\<rparr>"
    by simp
  from custom_ignore_cwd_relative[of envW ?cfg "''./proj/docs/guide.md''" emptyState
         "[''other/.myignore'']"] l r k u
  show ?thesis by simp
qed

declare ancestorsOf.simps [simp del]
declare ascend.simps [simp del]

lemma stripCommon_take: "stripCommon (take n xs) xs = ([], drop n xs)"
proof (induction xs arbitrary: n)
  case Nil
  show ?case by simp
next
  case (Cons x xs)
  show ?case
  proof (cases n)
    case 0
    then show ?thesis by simp
  next
    case (Suc k)
    with Cons show ?thesis by simp
  qed
qed

lemma Rel_take: "Rel (take n absPath) absPath = Some (relativeTo (take n absPath) absPath)"
proof -
  have "drop (min (length absPath) n) absPath = drop n absPath"
    by (cases "n \<le> length absPath") (simp_all add: min_def)
  then show ?thesis
    by (simp add: Rel_def stripCommon_take relativeTo_def)
qed

lemma Dir_take: "\<exists>k. Dir (take n xs) = take k xs"
proof (cases "n \<le> length xs")
  case True
  then show ?thesis
    by (auto simp: Dir_def butlast_take)
next
  case False
  then have "Dir (take n xs) = take (length xs - 1) xs"
    by (simp add: Dir_def butlast_conv_take)
  then show ?thesis ..
qed

lemma ignoreMatcherCache_emit [simp]: "ignoreMatcherCache (emit ev s) = ignoreMatcherCache s"
  by (simp add: emit_def)

lemma events_emit [simp]: "events (emit ev s) = events s @ [ev]"
  by (simp add: emit_def)

lemma cacheOk_emit [simp]: "cacheOk e (emit ev s) = cacheOk e s"
  by (simp add: cacheOk_def emit_def)

lemma finalFiles_emit [simp]: "finalFiles (emit ev s) = finalFiles s"
  by (simp add: emit_def)

lemma getGitignoreMatcher_ok:
  assumes "cacheOk e s"
  shows "fst (getGitignoreMatcher e d s) = CompileIgnoreFile e (d @ [''.gitignore''])"
    and "cacheOk e (snd (getGitignoreMatcher e d s))"
  using assms
  by (auto simp: getGitignoreMatcher_def cacheOk_def Let_def split: option.splits)

lemma getGitignoreMatcher_finalFiles [simp]:
  "finalFiles (snd (getGitignoreMatcher e d s)) = finalFiles s"
  by (simp add: getGitignoreMatcher_def Let_def split: option.splits)

lemma ascend_unfold:
  "ascend e absPath (take n absPath) s =
     (let m = fst (getGitignoreMatcher e (take n absPath) s);
          s1 = snd (getGitignoreMatcher e (take n absPath) s)
      in if (case m of None \<Rightarrow> False
             | Some matcher \<Rightarrow> MatchesPath e matcher (relativeTo (take n absPath) absPath))
         then (True, s1)
         else if Dir (take n absPath) = take n absPath then (False, s1)
         else ascend e absPath (Dir (take n absPath)) s1)"
  by (subst ascend.simps)
     (simp add: Rel_take ToSlash_def case_prod_beta Let_def split: option.splits)


lemma Dir_shorter: "Dir d \<noteq> d \<Longrightarrow> length (Dir d) < length d"
  by (cases d rule: rev_cases) (simp_all add: Dir_def)

lemma ignoredAt_matcher:
  "cacheOk e s \<Longrightarrow>
   (case fst (getGitignoreMatcher e d s) of None \<Rightarrow> False
    | Some matcher \<Rightarrow> MatchesPath e matcher (relativeTo d absPath)) = ignoredAt e absPath d"
  by (simp add: getGitignoreMatcher_ok ignoredAt_def)

lemma ascend_spec:
  "cacheOk e s \<Longrightarrow>
   fst (ascend e absPath (take n absPath) s)
     = list_ex (ignoredAt e absPath) (ancestorsOf (take n absPath))
   \<and> cacheOk e (snd (ascend e absPath (take n absPath) s))
   \<and> finalFiles (snd (ascend e absPath (take n absPath) s)) = finalFiles s"
proof (induction "length (take n absPath)" arbitrary: n s rule: less_induct)
  case less
  let ?d = "take n absPath"
  let ?s1 = "snd (getGitignoreMatcher e ?d s)"
  have ok1: "cacheOk e ?s1"
    using less.prems by (rule getGitignoreMatcher_ok)
  show ?case
  proof (cases "ignoredAt e absPath ?d")
    case True
    have "ascend e absPath ?d s = (True, ?s1)"
      using less.prems True by (subst ascend_unfold) (simp add: ignoredAt_matcher Let_def)
    moreover have "list_ex (ignoredAt e absPath) (ancestorsOf ?d)"
      using True by (subst ancestorsOf.simps) simp
    ultimately show ?thesis
      using ok1 by simp
  next
    case notHere: False
    show ?thesis
    proof (cases "Dir ?d = ?d")
      case True
      have "ascend e absPath ?d s = (False, ?s1)"
        using less.prems notHere True
        by (subst ascend_unfold) (simp add: ignoredAt_matcher Let_def)
      moreover have "\<not> list_ex (ignoredAt e absPath) (ancestorsOf ?d)"
        using notHere True by (subst ancestorsOf.simps) simp
      ultimately show ?thesis
        using ok1 by simp
    next
      case False
      obtain k where k: "Dir ?d = take k absPath"
        using Dir_take by blast
      from False have "length (Dir ?d) < length ?d"
        by (rule Dir_shorter)
      then have lt: "length (take k absPath) < length ?d"
        by (simp add: k)
      note IH = less.hyps[OF lt ok1]
      have step: "ascend e absPath ?d s = ascend e absPath (take k absPath) ?s1"
        using less.prems notHere False
        by (subst ascend_unfold) (simp add: ignoredAt_matcher Let_def k)
      have anc: "ancestorsOf ?d = ?d # ancestorsOf (take k absPath)"
        using False by (subst ancestorsOf.simps) (simp add: k)
      show ?thesis
        using IH notHere by (simp add: step anc)
    qed
  qed
qed


lemma Rel_Some: "\<exists>r. Rel d a = Some r"
  by (simp add: Rel_def case_prod_beta Let_def)

lemma ascend_cases:
  "ascend e a d s = (True, snd (getGitignoreMatcher e d s))
   \<or> (Dir d = d \<and> ascend e a d s = (False, snd (getGitignoreMatcher e d s)))
   \<or> (Dir d \<noteq> d \<and> ascend e a d s = ascend e a (Dir d) (snd (getGitignoreMatcher e d s)))"
proof -
  obtain r where "Rel d a = Some r"
    using Rel_Some by blast
  then show ?thesis
    by (subst ascend.simps, subst (2) ascend.simps, subst (3) ascend.simps)
       (simp add: case_prod_beta split: option.splits)
qed

lemma getGitignoreMatcher_events:
  "\<exists>evs. events (snd (getGitignoreMatcher e d s)) = events s @ evs \<and> set evs \<subseteq> {probe d}"
  by (simp add: getGitignoreMatcher_def Let_def probe_def split: option.splits)

lemma ascend_events:
  "\<exists>evs. events (snd (ascend e a d s)) = events s @ evs \<and> set evs \<subseteq> probe ` set (ancestorsOf d)"
proof (induction "length d" arbitrary: d s rule: less_induct)
  case less
  let ?s1 = "snd (getGitignoreMatcher e d s)"
  obtain evs1 where evs1: "events ?s1 = events s @ evs1" "set evs1 \<subseteq> {probe d}"
    using getGitignoreMatcher_events by blast
  have here: "d \<in> set (ancestorsOf d)"
    by (subst ancestorsOf.simps) simp
  consider (stop) "snd (ascend e a d s) = ?s1"
    | (up) "Dir d \<noteq> d" "ascend e a d s = ascend e a (Dir d) ?s1"
    using ascend_cases[of e a d s] by (metis snd_conv)
  then show ?case
  proof cases
    case stop
    with evs1 here show ?thesis by auto
  next
    case up
    from up(1) have "length (Dir d) < length d"
      by (rule Dir_shorter)
    from less.hyps[OF this, of ?s1]
    obtain evs2 where evs2: "events (snd (ascend e a (Dir d) ?s1)) = events ?s1 @ evs2"
        "set evs2 \<subseteq> probe ` set (ancestorsOf (Dir d))"
      by blast
    have anc: "ancestorsOf d = d # ancestorsOf (Dir d)"
      using up(1) by (subst ancestorsOf.simps) simp
    have "events (snd (ascend e a d s)) = events s @ (evs1 @ evs2)"
      by (simp add: up(2) evs2 evs1)
    moreover have "set (evs1 @ evs2) \<subseteq> probe ` set (ancestorsOf d)"
      using evs1(2) evs2(2) by (auto simp: anc)
    ultimately show ?thesis by blast
  qed
qed

lemma ascend_keeps:
  "finalFiles (snd (ascend e a d s)) = finalFiles s"
proof (induction "length d" arbitrary: d s rule: less_induct)
  case less
  let ?s1 = "snd (getGitignoreMatcher e d s)"
  consider (stop) "snd (ascend e a d s) = ?s1"
    | (up) "Dir d \<noteq> d" "ascend e a d s = ascend e a (Dir d) ?s1"
    using ascend_cases[of e a d s] by (metis snd_conv)
  then show ?case
  proof cases
    case stop
    then show ?thesis by simp
  next
    case up
    from up(1) have "length (Dir d) < length d"
      by (rule Dir_shorter)
    from less.hyps[OF this, of ?s1] show ?thesis
      by (simp add: up(2))
  qed
qed

lemma ascend_cacheOk:
  "cacheOk e s \<Longrightarrow> cacheOk e (snd (ascend e a d s))"
proof (induction "length d" arbitrary: d s rule: less_induct)
  case less
  let ?s1 = "snd (getGitignoreMatcher e d s)"
  have ok1: "cacheOk e ?s1"
    using less.prems by (rule getGitignoreMatcher_ok)
  consider (stop) "snd (ascend e a d s) = ?s1"
    | (up) "Dir d \<noteq> d" "ascend e a d s = ascend e a (Dir d) ?s1"
    using ascend_cases[of e a d s] by (metis snd_conv)
  then show ?case
  proof cases
    case stop
    with ok1 show ?thesis by simp
  next
    case up
    from up(1) have "length (Dir d) < length d"
      by (rule Dir_shorter)
    from less.hyps[OF this ok1] show ?thesis
      by (simp add: up(2))
  qed
qed

lemma startDir_take: "\<exists>n. startDir e absPath = take n absPath"
proof (cases "StatAbs e absPath = Some False")
  case True
  then have "startDir e absPath = take (length absPath - 1) absPath"
    by (simp add: startDir_def Dir_def butlast_conv_take)
  then show ?thesis ..
next
  case False
  then have "startDir e absPath = take (length absPath) absPath"
    by (simp add: startDir_def)
  then show ?thesis ..
qed

lemma isGitignored_start:
  "\<not> NoGitignore (config p) \<Longrightarrow> Abs e path = Some absPath \<Longrightarrow>
   isGitignored e p path s = ascend e absPath (startDir e absPath) s"
  by (auto simp: isGitignored_def startDir_def Let_def split: option.splits bool.splits)

lemma isGitignored_verdict:
  assumes "cacheOk e s"
  shows "fst (isGitignored e p path s) = gitignoredSpec e p path"
proof (cases "NoGitignore (config p)")
  case True
  then show ?thesis by (simp add: isGitignored_def gitignoredSpec_def)
next
  case on: False
  show ?thesis
  proof (cases "Abs e path")
    case None
    then show ?thesis by (simp add: isGitignored_def gitignoredSpec_def)
  next
    case (Some absPath)
    obtain n where n: "startDir e absPath = take n absPath"
      using startDir_take by blast
    from ascend_spec[OF assms, of absPath n] show ?thesis
      by (simp add: isGitignored_start[OF on Some] gitignoredSpec_def on Some n)
  qed
qed


lemma ancestorsOf_last: "last (ancestorsOf d) = []"
proof (induction "length d" arbitrary: d rule: less_induct)
  case less
  show ?case
  proof (cases "Dir d = d")
    case True
    then have "d = []"
      by (cases d rule: rev_cases) (simp_all add: Dir_def)
    then show ?thesis
      by (subst ancestorsOf.simps) (simp add: Dir_def)
  next
    case False
    then have "length (Dir d) < length d"
      by (rule Dir_shorter)
    from less.hyps[OF this] have "last (ancestorsOf (Dir d)) = []" .
    moreover have "ancestorsOf (Dir d) \<noteq> []"
      by (subst ancestorsOf.simps) simp
    ultimately show ?thesis
      using False by (subst ancestorsOf.simps) simp
  qed
qed

lemma isGitignored_cacheOk: "cacheOk e s \<Longrightarrow> cacheOk e (snd (isGitignored e p path s))"
  by (simp add: isGitignored_def Let_def ascend_cacheOk split: option.splits)

lemma cacheOk_emptyState: "cacheOk e emptyState"
  by (simp add: cacheOk_def emptyState_def)

text \<open>
  C4. With .gitignore support disabled the resolver answers "not ignored" and leaves the
  state as it was: nothing is read. With support enabled (and a cache that agrees with the
  file system, as every cache built by the resolver does) it answers "ignored" exactly
  when the .gitignore of some directory on the ancestor chain matches the path written
  relative to that directory; the chain starts at the directory of a file, or at the path
  itself otherwise, goes up one directory at a time and ends at the root. The resolver
  is a total function: the ascent terminates.
\<close>

theorem gitignore_ancestor_chain:
  "(NoGitignore (config p) \<longrightarrow> isGitignored e p path s = (False, s))
   \<and> (\<not> NoGitignore (config p) \<and> cacheOk e s \<and> Abs e path = Some absPath \<longrightarrow>
        fst (isGitignored e p path s)
          = list_ex (ignoredAt e absPath) (ancestorsOf (startDir e absPath))
        \<and> last (ancestorsOf (startDir e absPath)) = []
        \<and> cacheOk e (snd (isGitignored e p path s)))"
proof (intro conjI impI)
  assume "NoGitignore (config p)"
  then show "isGitignored e p path s = (False, s)"
    by (simp add: isGitignored_def)
next
  assume h: "\<not> NoGitignore (config p) \<and> cacheOk e s \<and> Abs e path = Some absPath"
  then show "fst (isGitignored e p path s)
          = list_ex (ignoredAt e absPath) (ancestorsOf (startDir e absPath))"
    by (simp add: isGitignored_verdict gitignoredSpec_def)
  show "last (ancestorsOf (startDir e absPath)) = []"
    by (rule ancestorsOf_last)
  from h show "cacheOk e (snd (isGitignored e p path s))"
    by (simp add: isGitignored_cacheOk)
qed

theorem gitignore_ancestor_chain_witness:
  "\<not> NoGitignore (config (fst (New envW cfgDefault)))
   \<and> cacheOk envW emptyState
   \<and> Abs envW ''proj/dist/bundle.js'' = Some [''w'', ''proj'', ''dist'', ''bundle.js'']
   \<and> startDir envW [''w'', ''proj'', ''dist'', ''bundle.js''] = [''w'', ''proj'', ''dist'']
   \<and> ignoredAt envW [''w'', ''proj'', ''dist'', ''bundle.js''] [''w'']
   \<and> fst (isGitignored envW (fst (New envW cfgDefault)) ''proj/dist/bundle.js'' emptyState)
   \<and> isGitignored envW (fst (New envW (cfgDefault\<lparr>NoGitignore := True\<rparr>)))
        ''proj/dist/bundle.js'' emptyState = (False, emptyState)"
proof -
  let ?p = "fst (New envW cfgDefault)"
  let ?q = "fst (New envW (cfgDefault\<lparr>NoGitignore := True\<rparr>))"
  let ?a = "[''w'', ''proj'', ''dist'', ''bundle.js'']"
  have on: "\<not> NoGitignore (config ?p)" and off: "NoGitignore (config ?q)"
    by code_simp+
  have ab: "Abs envW ''proj/dist/bundle.js'' = Some ?a"
    by code_simp
  have st: "startDir envW ?a = [''w'', ''proj'', ''dist'']"
    by code_simp
  have ig: "ignoredAt envW ?a [''w'']"
    by code_simp
  have ex: "list_ex (ignoredAt envW ?a) (ancestorsOf (startDir envW ?a))"
    by code_simp
  from gitignore_ancestor_chain[of ?p envW "''proj/dist/bundle.js''" emptyState ?a]
    gitignore_ancestor_chain[of ?q envW "''proj/dist/bundle.js''" emptyState ?a]
    on off ab st ig ex cacheOk_emptyState[of envW]
  show ?thesis by simp
qed


lemma shouldSkipDir_form:
  "shouldSkipDir e p path s =
     (if isExcluded e p path \<or> customMatches e (customIgnoreMatcher p) path then (True, s)
      else isGitignored e p path s)"
  by (simp add: shouldSkipDir_def customMatches_def Let_def split: option.splits)

lemma isGitignored_keeps [simp]: "finalFiles (snd (isGitignored e p path s)) = finalFiles s"
  by (simp add: isGitignored_def Let_def ascend_keeps split: option.splits)

lemma isGitignored_events:
  "\<exists>evs. events (snd (isGitignored e p path s)) = events s @ evs
     \<and> (\<forall>ev\<in>set evs. \<exists>a. Abs e path = Some a \<and> ev \<in> probe ` set (ancestorsOf (startDir e a)))"
proof (cases "NoGitignore (config p) \<or> Abs e path = None")
  case True
  then have "isGitignored e p path s = (False, s)"
    by (auto simp: isGitignored_def)
  then show ?thesis by simp
next
  case False
  then obtain a where a: "Abs e path = Some a" and on: "\<not> NoGitignore (config p)"
    by auto
  from ascend_events[of e a "startDir e a" s]
  show ?thesis
    by (auto simp: isGitignored_start[OF on a] a)
qed

lemma excludedBy_list_ex:
  "excludedBy e patterns path = list_ex (\<lambda>pattern. PathMatch e pattern path = Some True) patterns"
  by (induction patterns) (simp_all add: ToSlash_def)

lemma isExcluded_excludeMatches: "isExcluded e p path = excludeMatches e p path"
  by (simp add: isExcluded_def excludeMatches_def excludedBy_list_ex)

lemma shouldSkipDir_verdict:
  "cacheOk e s \<Longrightarrow> fst (shouldSkipDir e p path s) = skipSpec e p path"
  by (auto simp: shouldSkipDir_form skipSpec_def isGitignored_verdict isExcluded_excludeMatches)

lemma shouldSkipDir_cacheOk:
  "cacheOk e s \<Longrightarrow> cacheOk e (snd (shouldSkipDir e p path s))"
  by (simp add: shouldSkipDir_form isGitignored_cacheOk)

lemma shouldSkipDir_keeps [simp]: "finalFiles (snd (shouldSkipDir e p path s)) = finalFiles s"
  by (simp add: shouldSkipDir_form)

lemma shouldSkipDir_events:
  "\<exists>evs. events (snd (shouldSkipDir e p path s)) = events s @ evs
     \<and> (\<forall>ev\<in>set evs. \<exists>a. Abs e path = Some a \<and> ev \<in> probe ` set (ancestorsOf (startDir e a)))"
  using isGitignored_events[of e p path s]
  by (simp add: shouldSkipDir_form)

lemma isBinary_eq: "isBinary e path s = (binaryContent e path, emit (OpenEv path) s)"
  by (simp add: isBinary_def binaryContent_def split: option.splits)

lemma shouldInclude_form:
  "shouldInclude e p path s =
     (if fst (shouldSkipDir e p path s) then (False, snd (shouldSkipDir e p path s))
      else if NoBinaryCheck (config p) then (True, snd (shouldSkipDir e p path s))
      else (\<not> binaryContent e path, emit (OpenEv path) (snd (shouldSkipDir e p path s))))"
  by (simp add: shouldInclude_def isBinary_eq case_prod_beta)

lemma shouldInclude_verdict:
  "cacheOk e s \<Longrightarrow> fst (shouldInclude e p path s) = passesFilter e p path"
  by (simp add: shouldInclude_form shouldSkipDir_verdict passesFilter_def)

lemma shouldInclude_cacheOk:
  "cacheOk e s \<Longrightarrow> cacheOk e (snd (shouldInclude e p path s))"
  by (simp add: shouldInclude_form shouldSkipDir_cacheOk)

lemma shouldInclude_keeps [simp]: "finalFiles (snd (shouldInclude e p path s)) = finalFiles s"
  by (simp add: shouldInclude_form)

lemma cacheOk_finalFiles_update [simp]: "cacheOk e (s\<lparr>finalFiles := fs\<rparr>) = cacheOk e s"
  by (simp add: cacheOk_def)

lemma walkFn_file:
  "walkFn e p root path False False s =
     (Ok, if fst (shouldInclude e p path s)
          then (snd (shouldInclude e p path s))
                 \<lparr>finalFiles := List.insert path (finalFiles (snd (shouldInclude e p path s)))\<rparr>
          else snd (shouldInclude e p path s))"
  by (simp add: walkFn_def case_prod_beta)

lemma walkFn_dir:
  "walkFn e p root path True False s =
     (if path \<noteq> root
      then (if fst (shouldSkipDir e p path s) then SkipDir else Ok, snd (shouldSkipDir e p path s))
      else (Ok, s))"
  by (simp add: walkFn_def case_prod_beta)

lemma walkFn_err: "walkFn e p root path isDir True s = (Failed, s)"
  by (simp add: walkFn_def)

lemma walkDir_file:
  "walkDir e p root path (File n) s = walkFn e p root path False False s"
  by simp

lemma walkDir_dir:
  "walkDir e p root path (Dir_node n readable dirs) s =
     (if path \<noteq> root \<and> fst (shouldSkipDir e p path s) then (Ok, snd (shouldSkipDir e p path s))
      else
        (let s1 = (if path \<noteq> root then snd (shouldSkipDir e p path s) else s)
         in if readable then walkEntries e p root path dirs (emit (ReadDirEv path) s1)
            else (Failed, emit (ReadDirEv path) s1)))"
  by (simp add: walkFn_dir walkFn_err Let_def)

declare walkDir.simps(2) [simp del]

lemma walkAgrees_file:
  assumes "cacheOk e s"
  shows "walkAgrees e s (walkDir e p root path (File n) s) (walkDirSpec e p root path (File n))"
  using assms
  by (simp add: walkAgrees_def walkFn_file shouldInclude_verdict shouldInclude_cacheOk)

lemma walkAgrees_pruned:
  assumes "cacheOk e s" and "path \<noteq> root" and "skipSpec e p path"
  shows "walkAgrees e s (walkDir e p root path (Dir_node n readable dirs) s)
           (walkDirSpec e p root path (Dir_node n readable dirs))"
  using assms
  by (simp add: walkAgrees_def walkDir_dir shouldSkipDir_verdict shouldSkipDir_cacheOk)

lemma walkAgrees_unreadable:
  assumes "cacheOk e s" and "\<not> (path \<noteq> root \<and> skipSpec e p path)"
  shows "walkAgrees e s (walkDir e p root path (Dir_node n False dirs) s)
           (walkDirSpec e p root path (Dir_node n False dirs))"
  using assms
  by (auto simp: walkAgrees_def walkDir_dir shouldSkipDir_verdict shouldSkipDir_cacheOk Let_def)

lemma spec_no_SkipDir:
  "fst (walkDirSpec e p root path nd) \<noteq> SkipDir"
  "fst (walkEntriesSpec e p root path nds) \<noteq> SkipDir"
proof (induction e p root path nd and e p root path nds
        rule: walkDirSpec_walkEntriesSpec.induct)
  case (4 e p root path d1 rest)
  let ?sp1 = "walkDirSpec e p root (Join path (Name d1)) d1"
  show ?case
  proof (cases "fst ?sp1 = Ok")
    case True
    then have "(Ok, snd ?sp1) = ?sp1"
      by (metis prod.collapse)
    from "4.IH"(2)[OF this refl] True show ?thesis
      by (simp add: case_prod_beta)
  next
    case False
    with "4.IH"(1) show ?thesis
      by (simp add: case_prod_beta)
  qed
qed auto

lemma walk_refines:
  "cacheOk e s \<Longrightarrow> walkAgrees e s (walkDir e p root path nd s) (walkDirSpec e p root path nd)"
  "cacheOk e s \<Longrightarrow>
     walkAgrees e s (walkEntries e p root path nds s) (walkEntriesSpec e p root path nds)"
proof (induction e p root path nd s and e p root path nds s rule: walkDir_walkEntries.induct)
  case (1 e p root path n s)
  then show ?case by (rule walkAgrees_file)
next
  case (2 e p root path n readable dirs s)
  show ?case
  proof (cases "path \<noteq> root \<and> skipSpec e p path")
    case True
    then have "path \<noteq> root" and "skipSpec e p path"
      by simp_all
    with "2.prems" show ?thesis by (rule walkAgrees_pruned)
  next
    case enter: False
    show ?thesis
    proof (cases readable)
      case False
      then have r: "readable = False"
        by simp
      show ?thesis
        unfolding r by (rule walkAgrees_unreadable[OF "2.prems" enter])
    next
      case True
      let ?s1 = "if path \<noteq> root then snd (shouldSkipDir e p path s) else s"
      have fn: "walkFn e p root path True False s = (Ok, ?s1)"
        using enter "2.prems" by (auto simp: walkFn_dir shouldSkipDir_verdict)
      have ok1: "cacheOk e (emit (ReadDirEv path) ?s1)"
        using "2.prems" by (simp add: shouldSkipDir_cacheOk)
      have IH: "walkAgrees e (emit (ReadDirEv path) ?s1)
                  (walkEntries e p root path dirs (emit (ReadDirEv path) ?s1))
                  (walkEntriesSpec e p root path dirs)"
        using "2.IH"(1)[OF fn[symmetric] _ True ok1] by simp
      have "walkAgrees e s (walkEntries e p root path dirs (emit (ReadDirEv path) ?s1))
                  (walkEntriesSpec e p root path dirs)"
        using IH by (simp add: walkAgrees_def)
      moreover have "walkDir e p root path (Dir_node n readable dirs) s
          = walkEntries e p root path dirs (emit (ReadDirEv path) ?s1)"
        using enter True "2.prems" by (auto simp: walkDir_dir shouldSkipDir_verdict Let_def)
      ultimately show ?thesis
        using enter True by auto
    qed
  qed
next
  case (3 e p root path s)
  then show ?case by (simp add: walkAgrees_def)
next
  case (4 e p root path d1 rest s)
  let ?o1 = "walkDir e p root (Join path (Name d1)) d1 s"
  let ?sp1 = "walkDirSpec e p root (Join path (Name d1)) d1"
  have a1: "walkAgrees e s ?o1 ?sp1"
    using "4.IH"(1)[OF "4.prems"] .
  show ?case
  proof (cases "fst ?o1 = Ok")
    case True
    then have o1: "?o1 = (Ok, snd ?o1)"
      by (metis prod.collapse)
    have ok1: "cacheOk e (snd ?o1)"
      using a1 by (simp add: walkAgrees_def)
    have a2: "walkAgrees e (snd ?o1) (walkEntries e p root path rest (snd ?o1))
                (walkEntriesSpec e p root path rest)"
      using "4.IH"(2)[OF o1[symmetric] _ ok1] by simp
    have sp: "fst ?sp1 = Ok"
      using a1 True by (simp add: walkAgrees_def)
    have "walkAgrees e s (walkEntries e p root path rest (snd ?o1))
            (fst (walkEntriesSpec e p root path rest),
             snd ?sp1 @ snd (walkEntriesSpec e p root path rest))"
      using a1 a2 by (auto simp: walkAgrees_def)
    then show ?thesis
      using True sp by (simp add: case_prod_beta)
  next
    case False
    have sp: "fst ?sp1 \<noteq> Ok"
      using a1 False by (simp add: walkAgrees_def)
    have nf: "fst ?sp1 \<noteq> SkipDir"
      by (rule spec_no_SkipDir)
    then have "fst ?o1 \<noteq> SkipDir"
      using a1 by (simp add: walkAgrees_def)
    then show ?thesis
      using a1 False sp by (simp add: case_prod_beta walkAgrees_def)
  qed
qed

lemma WalkDir_agrees:
  assumes "cacheOk e s"
  shows "walkAgrees e s (WalkDir e p root s) (WalkDirSpec e p root)"
proof (cases "Lstree e root")
  case None
  with assms show ?thesis
    by (simp add: WalkDir_def WalkDirSpec_def walkFn_err walkAgrees_def)
next
  case (Some d)
  from walk_refines(1)[OF assms, of p root root d]
  have a: "walkAgrees e s (walkDir e p root root d s) (walkDirSpec e p root root d)" .
  then have "fst (walkDir e p root root d s) \<noteq> SkipDir"
    using spec_no_SkipDir(1)[of e p root root d] by (simp add: walkAgrees_def)
  with a show ?thesis
    by (simp add: WalkDir_def WalkDirSpec_def Some case_prod_beta walkAgrees_def)
qed

text \<open>What one candidate does to the state.\<close>

lemma processPath_agrees:
  assumes "cacheOk e s"
  shows "set (finalFiles (processPath e p path s)) = set (finalFiles s) \<union> set (candidateFiles e p path)"
    and "cacheOk e (processPath e p path s)"
    and "distinct (finalFiles s) \<Longrightarrow> distinct (finalFiles (processPath e p path s))"
proof -
  have w: "walkAgrees e s (WalkDir e p path s) (WalkDirSpec e p path)"
    using assms by (rule WalkDir_agrees)
  show "set (finalFiles (processPath e p path s)) = set (finalFiles s) \<union> set (candidateFiles e p path)"
    using assms w
    by (auto simp: processPath_def candidateFiles_def shouldInclude_verdict walkAgrees_def
          case_prod_beta Let_def split: option.splits bool.splits)
  show "cacheOk e (processPath e p path s)"
    using assms w
    by (auto simp: processPath_def shouldInclude_cacheOk walkAgrees_def
          case_prod_beta Let_def split: option.splits bool.splits)
  show "distinct (finalFiles (processPath e p path s))" if "distinct (finalFiles s)"
    using assms w that
    by (auto simp: processPath_def walkAgrees_def case_prod_beta Let_def
          split: option.splits bool.splits)
qed

lemma fold_processPath:
  assumes "cacheOk e s"
  shows "set (finalFiles (fold (processPath e p) cs s))
           = set (finalFiles s) \<union> (\<Union>c\<in>set cs. set (candidateFiles e p c))"
    and "cacheOk e (fold (processPath e p) cs s)"
    and "distinct (finalFiles s) \<Longrightarrow> distinct (finalFiles (fold (processPath e p) cs s))"
  using assms
proof (induction cs arbitrary: s)
  case Nil
  {
    case 1 show ?case by simp
  next
    case 2 then show ?case by simp
  next
    case 3 then show ?case by simp
  }
next
  case (Cons c cs)
  {
    case 1
    from Cons(1)[OF processPath_agrees(2)[OF 1]] processPath_agrees(1)[OF 1]
    show ?case by auto
  next
    case 2
    from Cons(2)[OF processPath_agrees(2)[OF 2]] show ?case by simp
  next
    case 3
    from Cons(3)[OF processPath_agrees(3)[OF 3(2) 3(1)] processPath_agrees(2)[OF 3(2)]]
    show ?case by simp
  }
qed

lemma fold_insert_keys:
  "set (fold List.insert ms acc) = set acc \<union> set ms"
  "distinct acc \<Longrightarrow> distinct (fold List.insert ms acc)"
  by (induction ms arbitrary: acc) auto

lemma expandAll_keys:
  "set (fst (expandAll e paths acc s)) = set acc \<union> set (candidates e paths)"
  "distinct acc \<Longrightarrow> distinct (fst (expandAll e paths acc s))"
  "ignoreMatcherCache (snd (expandAll e paths acc s)) = ignoreMatcherCache s"
  by (induction paths arbitrary: acc s)
     (auto simp: candidates_def fold_insert_keys split: option.splits)


lemma loadIgnoreFiles_cache:
  "ignoreMatcherCache (snd (loadIgnoreFiles e files acc s)) = ignoreMatcherCache s"
  by (induction files arbitrary: acc s) (simp_all split: option.splits)

lemma New_cacheOk: "cacheOk e (snd (New e cfg))"
proof -
  have "ignoreMatcherCache (snd (New e cfg)) = ignoreMatcherCache emptyState"
    by (simp add: New_def Let_def case_prod_beta loadIgnoreFiles_cache)
  then have "cacheOk e (snd (New e cfg)) = cacheOk e emptyState"
    by (simp add: cacheOk_def)
  then show ?thesis
    by (simp add: cacheOk_emptyState)
qed

lemma ProcessPaths_distinct:
  assumes "cacheOk e s" and "enumerates (rangeFinal e)"
  shows "distinct (fst (ProcessPaths e p paths s))"
proof -
  let ?s1 = "(snd (expandAll e paths [] s))\<lparr>finalFiles := []\<rparr>"
  let ?cs = "rangeExpanded e (fst (expandAll e paths [] s))"
  have "cacheOk e ?s1"
    using assms(1) expandAll_keys(3)[of e paths "[]" s] by (simp add: cacheOk_def)
  moreover have "distinct (finalFiles ?s1)"
    by simp
  ultimately have "distinct (finalFiles (fold (processPath e p) ?cs ?s1))"
    by (simp add: fold_processPath(3))
  with assms(2) show ?thesis
    by (simp add: ProcessPaths_def case_prod_beta Let_def enumerates_def)
qed

lemma ProcessPaths_files:
  assumes "cacheOk e s" and "enumerates (rangeExpanded e)" and "enumerates (rangeFinal e)"
  shows "set (fst (ProcessPaths e p paths s))
           = (\<Union>c\<in>set (candidates e paths). set (candidateFiles e p c))"
proof -
  let ?s1 = "(snd (expandAll e paths [] s))\<lparr>finalFiles := []\<rparr>"
  let ?cs = "rangeExpanded e (fst (expandAll e paths [] s))"
  have ok: "cacheOk e ?s1"
    using assms(1) expandAll_keys(3)[of e paths "[]" s] by (simp add: cacheOk_def)
  have cs: "set ?cs = set (candidates e paths)"
    using assms(2) by (simp add: enumerates_def expandAll_keys(1))
  have "set (finalFiles (fold (processPath e p) ?cs ?s1))
          = (\<Union>c\<in>set ?cs. set (candidateFiles e p c))"
    using fold_processPath(1)[OF ok, of p ?cs] by simp
  with assms(3) cs show ?thesis
    by (simp add: ProcessPaths_def case_prod_beta Let_def enumerates_def)
qed

lemma resolve_files:
  assumes "enumerates (rangeExpanded e)" and "enumerates (rangeFinal e)"
  shows "set (fst (resolve e cfg paths))
           = (\<Union>c\<in>set (candidates e paths). set (candidateFiles e (fst (New e cfg)) c))"
  using ProcessPaths_files[OF New_cacheOk[of e cfg] assms, of "fst (New e cfg)" paths]
  by (simp add: resolve_def case_prod_beta)

lemma enumerates_envW: "enumerates (rangeExpanded envW)" "enumerates (rangeFinal envW)"
  by (simp_all add: enumerates_def envW_def)

text \<open>
  C6. Whatever order the final \<^verbatim>\<open>range\<close> over the map of collected files takes, the
  resolved list (after \<^verbatim>\<open>sort.Strings\<close>) is sorted by path string and holds no path
  twice, also when several inputs lead to the same file.
\<close>

theorem resolve_sorted_distinct:
  assumes "enumerates (rangeFinal e)"
  shows "sorted (fst (resolve e cfg paths)) \<and> distinct (fst (resolve e cfg paths))"
  using ProcessPaths_distinct[OF New_cacheOk[of e cfg] assms, of "fst (New e cfg)" paths]
  by (simp add: resolve_def case_prod_beta)

theorem resolve_sorted_distinct_witness:
  "enumerates (rangeFinal envW)
   \<and> fst (resolve envW cfgDefault [''proj'', ''proj/file1.txt'', ''proj/docs''])
       = [''proj/docs/guide.md'', ''proj/file1.txt'']
   \<and> sorted (fst (resolve envW cfgDefault [''proj'', ''proj/file1.txt'', ''proj/docs'']))
   \<and> distinct (fst (resolve envW cfgDefault [''proj'', ''proj/file1.txt'', ''proj/docs'']))"
proof -
  have v: "fst (resolve envW cfgDefault [''proj'', ''proj/file1.txt'', ''proj/docs''])
       = [''proj/docs/guide.md'', ''proj/file1.txt'']"
    by code_simp
  have sd: "sorted (fst (resolve envW cfgDefault [''proj'', ''proj/file1.txt'', ''proj/docs'']))
      \<and> distinct (fst (resolve envW cfgDefault [''proj'', ''proj/file1.txt'', ''proj/docs'']))"
    using enumerates_envW(2) by (rule resolve_sorted_distinct)
  show ?thesis
  proof (intro conjI)
    show "enumerates (rangeFinal envW)"
      by (rule enumerates_envW(2))
    show "fst (resolve envW cfgDefault [''proj'', ''proj/file1.txt'', ''proj/docs''])
       = [''proj/docs/guide.md'', ''proj/file1.txt'']"
      by (rule v)
    show "sorted (fst (resolve envW cfgDefault [''proj'', ''proj/file1.txt'', ''proj/docs'']))"
      using sd by (rule conjunct1)
    show "distinct (fst (resolve envW cfgDefault [''proj'', ''proj/file1.txt'', ''proj/docs'']))"
      using sd by (rule conjunct2)
  qed
qed

text \<open>
  C9. The files resolved from two lists of inputs together are the union of the files
  resolved from each list alone. Each resolution starts from a new processor; the
  inputs need not even lie in disjoint trees.
\<close>

theorem resolve_union:
  assumes "enumerates (rangeExpanded e)" and "enumerates (rangeFinal e)"
  shows "set (fst (resolve e cfg (A @ B)))
           = set (fst (resolve e cfg A)) \<union> set (fst (resolve e cfg B))"
  by (simp add: resolve_files[OF assms] candidates_def)


theorem resolve_union_witness:
  "enumerates (rangeExpanded envW) \<and> enumerates (rangeFinal envW)
   \<and> fst (resolve envW cfgDefault [''proj'']) = [''proj/docs/guide.md'', ''proj/file1.txt'']
   \<and> fst (resolve envW cfgDefault [''data'']) = [''data/secret.key'', ''data/text.txt'']
   \<and> set (fst (resolve envW cfgDefault ([''proj''] @ [''data''])))
       = {''proj/docs/guide.md'', ''proj/file1.txt'', ''data/secret.key'', ''data/text.txt''}"
proof -
  have a: "fst (resolve envW cfgDefault [''proj'']) = [''proj/docs/guide.md'', ''proj/file1.txt'']"
    by code_simp
  have b: "fst (resolve envW cfgDefault [''data'']) = [''data/secret.key'', ''data/text.txt'']"
    by code_simp
  have u: "set (fst (resolve envW cfgDefault ([''proj''] @ [''data''])))
      = set (fst (resolve envW cfgDefault [''proj''])) \<union> set (fst (resolve envW cfgDefault [''data'']))"
    using enumerates_envW by (rule resolve_union)
  have "set (fst (resolve envW cfgDefault ([''proj''] @ [''data''])))
       = {''proj/docs/guide.md'', ''proj/file1.txt'', ''data/secret.key'', ''data/text.txt''}"
    unfolding u a b by (simp add: insert_commute)
  with a b enumerates_envW show ?thesis
    by (intro conjI)
qed

lemma walkEntries_pruned:
  assumes "Join parent n \<noteq> root" and "fst (shouldSkipDir e p (Join parent n) s)"
  shows "walkEntries e p root parent (Dir_node n readable dirs # rest) s
           = walkEntries e p root parent rest (snd (shouldSkipDir e p (Join parent n) s))"
  using assms by (simp add: walkDir_dir)

text \<open>
  C3 (as amended). A directory other than the start of the walk that stages 1 to 3
  exclude is not entered: its walk returns at once with the state the filter left, so
  the walk continues with the next entry of the parent, no file is added, the directory
  is not listed, no file content is read and no warning is written. What the filter
  itself reads while judging the directory are .gitignore files on the directory's
  ancestor chain, the directory's own included.
\<close>

theorem pruned_directory_not_entered:
  assumes "path \<noteq> root" and "fst (shouldSkipDir e p path s)"
  shows "walkDir e p root path (Dir_node n readable dirs) s = (Ok, snd (shouldSkipDir e p path s))
     \<and> (path = Join parent n \<longrightarrow>
          walkEntries e p root parent (Dir_node n readable dirs # rest) s
            = walkEntries e p root parent rest (snd (shouldSkipDir e p path s)))
     \<and> finalFiles (snd (shouldSkipDir e p path s)) = finalFiles s
     \<and> (\<exists>evs. events (snd (shouldSkipDir e p path s)) = events s @ evs
            \<and> (\<forall>ev\<in>set evs. \<exists>a. Abs e path = Some a
                                  \<and> ev \<in> probe ` set (ancestorsOf (startDir e a))))"
proof (intro conjI impI)
  show "walkDir e p root path (Dir_node n readable dirs) s = (Ok, snd (shouldSkipDir e p path s))"
    using assms by (simp add: walkDir_dir)
  show "walkEntries e p root parent (Dir_node n readable dirs # rest) s
            = walkEntries e p root parent rest (snd (shouldSkipDir e p path s))"
    if eq: "path = Join parent n"
  proof -
    from assms have "Join parent n \<noteq> root" and "fst (shouldSkipDir e p (Join parent n) s)"
      by (simp_all add: eq)
    then show ?thesis
      unfolding eq by (rule walkEntries_pruned)
  qed
  show "finalFiles (snd (shouldSkipDir e p path s)) = finalFiles s"
    by simp
  show "\<exists>evs. events (snd (shouldSkipDir e p path s)) = events s @ evs
            \<and> (\<forall>ev\<in>set evs. \<exists>a. Abs e path = Some a
                                  \<and> ev \<in> probe ` set (ancestorsOf (startDir e a)))"
    by (rule shouldSkipDir_events)
qed

theorem pruned_directory_not_entered_witness:
  "''proj/dist'' \<noteq> ''proj''
   \<and> fst (shouldSkipDir envW (fst (New envW cfgDefault)) ''proj/dist'' emptyState)
   \<and> fst (walkDir envW (fst (New envW cfgDefault)) ''proj'' ''proj/dist''
            (Dir_node ''dist'' True [File ''.gitignore'', File ''bundle.js'']) emptyState) = Ok
   \<and> finalFiles (snd (walkDir envW (fst (New envW cfgDefault)) ''proj'' ''proj/dist''
            (Dir_node ''dist'' True [File ''.gitignore'', File ''bundle.js'']) emptyState)) = []"
proof -
  let ?p = "fst (New envW cfgDefault)"
  have ne: "''proj/dist'' \<noteq> ''proj''"
    by simp
  have sk: "fst (shouldSkipDir envW ?p ''proj/dist'' emptyState)"
    by code_simp
  have ff: "finalFiles emptyState = []"
    by (simp add: emptyState_def)
  from pruned_directory_not_entered[OF ne sk, where n = "''dist''" and readable = True
         and dirs = "[File ''.gitignore'', File ''bundle.js'']" and parent = "''proj''"
         and rest = "[]"] ne sk ff
  show ?thesis by simp
qed

text \<open>
  C3, the claim as stated, fails in two ways. Resolving \<^verbatim>\<open>proj\<close> prunes
  \<^verbatim>\<open>proj/dist\<close> at stage 3, and the log holds a read of \<^verbatim>\<open>/w/proj/dist/.gitignore\<close>,
  a file inside that directory. And with the exclude pattern \<^verbatim>\<open>proj/dist\<close> (and
  .gitignore support off) the inputs \<^verbatim>\<open>proj\<close> and \<^verbatim>\<open>proj/dist/bundle.js\<close> resolve to
  a list that holds \<^verbatim>\<open>proj/dist/bundle.js\<close>: the directory is excluded and is not a
  starting candidate, but the file is a candidate of its own, which the pattern does not
  match.
\<close>

theorem pruned_directory_counterexample:
  "fst (shouldSkipDir envW (fst (New envW cfgDefault)) ''proj/dist'' emptyState)
   \<and> CompileIgnoreFile envW [''w'', ''proj'', ''dist'', ''.gitignore''] = Some [''tmp'']
   \<and> ReadIgnoreEv [''w'', ''proj'', ''dist'', ''.gitignore'']
        \<in> set (events (snd (resolve envW cfgDefault [''proj''])))
   \<and> fst (shouldSkipDir envW (fst (New envW cfgExcludeDist)) ''proj/dist'' emptyState)
   \<and> fst (resolve envW cfgExcludeDist [''proj'', ''proj/dist/bundle.js''])
       = [''proj/dist/bundle.js'', ''proj/docs/guide.md'', ''proj/file1.txt'']"
  by code_simp

lemma walkEntries_no_SkipDir: "fst (walkEntries e p root path nds s) \<noteq> SkipDir"
proof (induction nds arbitrary: s)
  case Nil
  show ?case by simp
next
  case (Cons d1 rest)
  show ?case
    using Cons.IH[of "snd (walkDir e p root (Join path (Name d1)) d1 s)"]
    by (cases "fst (walkDir e p root (Join path (Name d1)) d1 s)")
       (simp_all add: case_prod_beta)
qed

lemma walkDir_no_SkipDir: "fst (walkDir e p root path nd s) \<noteq> SkipDir"
proof (cases nd)
  case (File n)
  then show ?thesis by (simp add: walkFn_file)
next
  case (Dir_node n readable dirs)
  then show ?thesis
    using walkEntries_no_SkipDir by (simp add: walkDir_dir Let_def)
qed

lemma walkEntries_append_failed:
  assumes "walkEntries e p root parent pre s = (Ok, s1)"
    and "fst (walkDir e p root (Join parent (Name d)) d s1) = Failed"
  shows "walkEntries e p root parent (pre @ d # post) s
           = walkDir e p root (Join parent (Name d)) d s1"
  using assms
proof (induction pre arbitrary: s)
  case Nil
  then show ?case
    by (cases "walkDir e p root (Join parent (Name d)) d s1") simp
next
  case (Cons x pre)
  let ?o = "walkDir e p root (Join parent (Name x)) x s"
  have ok: "fst ?o = Ok"
  proof (rule ccontr)
    assume "fst ?o \<noteq> Ok"
    with Cons.prems(1) walkDir_no_SkipDir[of e p root "Join parent (Name x)" x s] show False
      by (simp add: case_prod_beta split: if_splits)
  qed
  with Cons.prems(1) have "walkEntries e p root parent pre (snd ?o) = (Ok, s1)"
    by (simp add: case_prod_beta)
  from Cons.IH[OF this Cons.prems(2)] ok show ?case
    by (simp add: case_prod_beta)
qed


lemma setNoRecursive_fields [simp]:
  "customIgnoreMatcher (setNoRecursive b p) = customIgnoreMatcher p"
  "NoGitignore (config (setNoRecursive b p)) = NoGitignore (config p)"
  "ExcludeGlobs (config (setNoRecursive b p)) = ExcludeGlobs (config p)"
  "NoBinaryCheck (config (setNoRecursive b p)) = NoBinaryCheck (config p)"
  by (simp_all add: setNoRecursive_def)

lemma filter_ignores_NoRecursive:
  "shouldSkipDir e (setNoRecursive b p) path s = shouldSkipDir e p path s"
  "shouldInclude e (setNoRecursive b p) path s = shouldInclude e p path s"
proof -
  have g: "isGitignored e (setNoRecursive b p) path s = isGitignored e p path s"
    by (simp add: isGitignored_def)
  show a: "shouldSkipDir e (setNoRecursive b p) path s = shouldSkipDir e p path s"
    by (simp add: shouldSkipDir_def isExcluded_def g Let_def split: option.splits)
  show "shouldInclude e (setNoRecursive b p) path s = shouldInclude e p path s"
    by (simp add: shouldInclude_def a case_prod_beta)
qed

lemma walkFn_ignores_NoRecursive:
  "walkFn e (setNoRecursive b p) root path isDir err s = walkFn e p root path isDir err s"
  by (simp add: walkFn_def filter_ignores_NoRecursive case_prod_beta)

lemma walk_ignores_NoRecursive:
  "walkDir e (setNoRecursive b p) root path nd s = walkDir e p root path nd s"
  "walkEntries e (setNoRecursive b p) root path nds s = walkEntries e p root path nds s"
proof (induction e p root path nd s and e p root path nds s rule: walkDir_walkEntries.induct)
  case (1 e p root path n s)
  show ?case by (simp add: walkFn_ignores_NoRecursive)
next
  case (2 e p root path n readable dirs s)
  show ?case
  proof (cases "path \<noteq> root \<and> fst (shouldSkipDir e p path s)")
    case True
    then show ?thesis
      by (simp add: walkDir_dir filter_ignores_NoRecursive)
  next
    case enter: False
    let ?s1 = "if path \<noteq> root then snd (shouldSkipDir e p path s) else s"
    show ?thesis
    proof (cases readable)
      case True
      have fn: "(Ok, ?s1) = walkFn e p root path True False s"
        using enter by (auto simp: walkFn_dir)
      from "2.IH"(1)[OF fn _ True] enter True show ?thesis
        by (auto simp: walkDir_dir filter_ignores_NoRecursive Let_def)
    next
      case False
      with enter show ?thesis
        by (simp add: walkDir_dir filter_ignores_NoRecursive Let_def)
    qed
  qed
next
  case (3 e p root path s)
  show ?case by simp
next
  case (4 e p root path d1 rest s)
  let ?o = "walkDir e p root (Join path (Name d1)) d1 s"
  show ?case
  proof (cases "fst ?o = Ok")
    case True
    then have "(Ok, snd ?o) = ?o"
      by (metis prod.collapse)
    from "4.IH"(2)[OF this refl] "4.IH"(1) True show ?thesis
      by (simp add: case_prod_beta)
  next
    case False
    with "4.IH"(1) show ?thesis
      by (simp add: case_prod_beta)
  qed
qed

lemma processPath_ignores_NoRecursive:
  "processPath e (setNoRecursive b p) path s = processPath e p path s"
  by (simp add: processPath_def WalkDir_def filter_ignores_NoRecursive
        walk_ignores_NoRecursive walkFn_ignores_NoRecursive Let_def case_prod_beta
      split: option.splits bool.splits)

lemma New_setNoRecursive:
  "New e (cfg\<lparr>NoRecursive := b\<rparr>)
     = (setNoRecursive b (fst (New e cfg)), snd (New e cfg))"
  by (simp add: New_def setNoRecursive_def Let_def case_prod_beta)

lemma resolve_ignores_NoRecursive:
  "resolve e (cfg\<lparr>NoRecursive := b\<rparr>) paths = resolve e cfg paths"
proof -
  have "processPath e (setNoRecursive b p) = processPath e p" for p
    by (intro ext) (rule processPath_ignores_NoRecursive)
  then show ?thesis
    by (simp add: resolve_def ProcessPaths_def New_setNoRecursive case_prod_beta)
qed


text \<open>
  C2. Non-recursive mode on an input without a recursive wildcard: the code descends as
  it does in recursive mode, for the option has no effect on what is resolved. On the
  concrete file system, resolving \<^verbatim>\<open>proj\<close> with \<open>NoRecursive\<close> set returns
  \<^verbatim>\<open>proj/docs/guide.md\<close>, a file two levels below \<^verbatim>\<open>proj\<close>.
\<close>

theorem no_recursive_still_descends:
  "resolve e (cfg\<lparr>NoRecursive := True\<rparr>) paths = resolve e (cfg\<lparr>NoRecursive := False\<rparr>) paths
   \<and> Contains ''proj'' ''**'' = False
   \<and> fst (resolve envW (cfgDefault\<lparr>NoRecursive := True\<rparr>) [''proj''])
       = [''proj/docs/guide.md'', ''proj/file1.txt'']"
proof (intro conjI)
  show "resolve e (cfg\<lparr>NoRecursive := True\<rparr>) paths = resolve e (cfg\<lparr>NoRecursive := False\<rparr>) paths"
    by (simp add: resolve_ignores_NoRecursive)
  show "Contains ''proj'' ''**'' = False"
    by code_simp
  show "fst (resolve envW (cfgDefault\<lparr>NoRecursive := True\<rparr>) [''proj''])
       = [''proj/docs/guide.md'', ''proj/file1.txt'']"
    by code_simp
qed

lemma binaryContent_zeroInHead: "binaryContent e path = zeroInHead e path"
proof -
  have "take (min (length bs) 1024) bs = take 1024 bs" for bs :: "8 word list"
    by (simp add: min_def)
  then show ?thesis
    by (simp add: binaryContent_def zeroInHead_def Read1024_def
          split: option.splits fileh.splits)
qed

lemma shouldInclude_no_open:
  assumes "fst (shouldSkipDir e p path s)"
  shows "\<exists>evs. events (snd (shouldInclude e p path s)) = events s @ evs \<and> OpenEv path \<notin> set evs"
proof -
  obtain evs where evs: "events (snd (shouldSkipDir e p path s)) = events s @ evs"
      "\<forall>ev\<in>set evs. \<exists>a. Abs e path = Some a \<and> ev \<in> probe ` set (ancestorsOf (startDir e a))"
    using shouldSkipDir_events by blast
  have "OpenEv path \<notin> set evs"
    using evs(2) by (auto simp: probe_def)
  with evs(1) assms show ?thesis
    by (simp add: shouldInclude_form)
qed

text \<open>
  C1. Under a cache that agrees with the file system, the filter includes a file exactly
  when none of the four stages excludes it: no exclude glob matches the path, the custom
  ignore matcher does not match it, no .gitignore on its ancestor chain matches it, and
  (unless the binary check is disabled) its first bytes hold no zero byte. A directory is
  judged by stages 1 to 3 alone. The stages are taken in this order and the first match
  ends the evaluation: a match of stage 1, or of stage 2 after stage 1, excludes the path
  and leaves the state as it was (no .gitignore is read, no file opened), and a path that
  stages 1 to 3 exclude is not opened for the binary check. With .gitignore support
  disabled stage 3 never excludes: inclusion is decided by stages 1, 2 and 4, whatever
  the .gitignore files say.
\<close>

theorem filter_stages:
  assumes "cacheOk e s"
  shows "fst (shouldInclude e p path s)
           = (\<not> excludeMatches e p path
              \<and> \<not> customMatches e (customIgnoreMatcher p) path
              \<and> \<not> gitignoredSpec e p path
              \<and> \<not> (\<not> NoBinaryCheck (config p) \<and> zeroInHead e path))
     \<and> fst (shouldSkipDir e p path s)
           = (excludeMatches e p path
              \<or> customMatches e (customIgnoreMatcher p) path
              \<or> gitignoredSpec e p path)
     \<and> (excludeMatches e p path \<longrightarrow>
          shouldInclude e p path s = (False, s) \<and> shouldSkipDir e p path s = (True, s))
     \<and> (\<not> excludeMatches e p path \<and> customMatches e (customIgnoreMatcher p) path \<longrightarrow>
          shouldInclude e p path s = (False, s) \<and> shouldSkipDir e p path s = (True, s))
     \<and> (excludeMatches e p path \<or> customMatches e (customIgnoreMatcher p) path
          \<or> gitignoredSpec e p path \<longrightarrow>
          (\<exists>evs. events (snd (shouldInclude e p path s)) = events s @ evs
                 \<and> OpenEv path \<notin> set evs))
     \<and> (NoGitignore (config p) \<longrightarrow>
          fst (shouldInclude e p path s)
            = (\<not> excludeMatches e p path
               \<and> \<not> customMatches e (customIgnoreMatcher p) path
               \<and> \<not> (\<not> NoBinaryCheck (config p) \<and> zeroInHead e path)))"
proof -
  have skip: "fst (shouldSkipDir e p path s)
           = (excludeMatches e p path \<or> customMatches e (customIgnoreMatcher p) path
              \<or> gitignoredSpec e p path)"
    using assms by (simp add: shouldSkipDir_verdict skipSpec_def)
  have incl: "fst (shouldInclude e p path s)
           = (\<not> excludeMatches e p path \<and> \<not> customMatches e (customIgnoreMatcher p) path
              \<and> \<not> gitignoredSpec e p path
              \<and> \<not> (\<not> NoBinaryCheck (config p) \<and> zeroInHead e path))"
    using assms
    by (auto simp: shouldInclude_verdict passesFilter_def skipSpec_def binaryContent_zeroInHead)
  have one: "shouldInclude e p path s = (False, s) \<and> shouldSkipDir e p path s = (True, s)"
    if "excludeMatches e p path"
    using that
    by (simp add: shouldInclude_form shouldSkipDir_form isExcluded_excludeMatches)
  have two: "shouldInclude e p path s = (False, s) \<and> shouldSkipDir e p path s = (True, s)"
    if "\<not> excludeMatches e p path \<and> customMatches e (customIgnoreMatcher p) path"
    using that
    by (simp add: shouldInclude_form shouldSkipDir_form isExcluded_excludeMatches)
  have three: "\<exists>evs. events (snd (shouldInclude e p path s)) = events s @ evs
                 \<and> OpenEv path \<notin> set evs"
    if "excludeMatches e p path \<or> customMatches e (customIgnoreMatcher p) path
          \<or> gitignoredSpec e p path"
    using that skip by (intro shouldInclude_no_open) simp
  have off: "\<not> gitignoredSpec e p path" if "NoGitignore (config p)"
    using that by (simp add: gitignoredSpec_def)
  from skip incl one two three off show ?thesis
    by blast
qed


theorem filter_stages_witness:
  "cacheOk envW emptyState
   \<and> excludeMatches envW (fst (New envW cfgStages)) ''proj/file1.txt''
   \<and> shouldInclude envW (fst (New envW cfgStages)) ''proj/file1.txt'' emptyState
       = (False, emptyState)
   \<and> \<not> excludeMatches envW (fst (New envW cfgStages)) ''proj/docs/guide.md''
   \<and> customMatches envW (customIgnoreMatcher (fst (New envW cfgStages))) ''proj/docs/guide.md''
   \<and> shouldInclude envW (fst (New envW cfgStages)) ''proj/docs/guide.md'' emptyState
       = (False, emptyState)
   \<and> gitignoredSpec envW (fst (New envW cfgStages)) ''proj/dist/bundle.js''
   \<and> \<not> fst (shouldInclude envW (fst (New envW cfgStages)) ''proj/dist/bundle.js'' emptyState)
   \<and> zeroInHead envW ''data/bin.dat''
   \<and> \<not> fst (shouldInclude envW (fst (New envW cfgStages)) ''data/bin.dat'' emptyState)
   \<and> fst (shouldInclude envW (fst (New envW cfgStages)) ''data/text.txt'' emptyState)
   \<and> NoGitignore (config (fst (New envW (cfgStages\<lparr>NoGitignore := True\<rparr>))))
   \<and> fst (shouldInclude envW (fst (New envW (cfgStages\<lparr>NoGitignore := True\<rparr>)))
            ''proj/dist/bundle.js'' emptyState)"
proof -
  let ?p = "fst (New envW cfgStages)"
  let ?q = "fst (New envW (cfgStages\<lparr>NoGitignore := True\<rparr>))"
  note ok = cacheOk_emptyState[of envW]
  have s1: "excludeMatches envW ?p ''proj/file1.txt''"
    by code_simp
  have s2: "\<not> excludeMatches envW ?p ''proj/docs/guide.md''"
      "customMatches envW (customIgnoreMatcher ?p) ''proj/docs/guide.md''"
    by code_simp+
  have s3: "gitignoredSpec envW ?p ''proj/dist/bundle.js''"
    by code_simp
  have s4: "zeroInHead envW ''data/bin.dat''"
      "\<not> NoBinaryCheck (config ?p)"
    by code_simp+
  have s5: "\<not> excludeMatches envW ?p ''data/text.txt''"
      "\<not> customMatches envW (customIgnoreMatcher ?p) ''data/text.txt''"
      "\<not> gitignoredSpec envW ?p ''data/text.txt''"
      "\<not> zeroInHead envW ''data/text.txt''"
    by code_simp+
  have s6: "NoGitignore (config ?q)"
      "\<not> excludeMatches envW ?q ''proj/dist/bundle.js''"
      "\<not> customMatches envW (customIgnoreMatcher ?q) ''proj/dist/bundle.js''"
      "\<not> zeroInHead envW ''proj/dist/bundle.js''"
    by code_simp+
  from filter_stages[OF ok, of ?p "''proj/file1.txt''"] s1
  have c1: "shouldInclude envW ?p ''proj/file1.txt'' emptyState = (False, emptyState)"
    by blast
  from filter_stages[OF ok, of ?p "''proj/docs/guide.md''"] s2
  have c2: "shouldInclude envW ?p ''proj/docs/guide.md'' emptyState = (False, emptyState)"
    by blast
  from filter_stages[OF ok, of ?p "''proj/dist/bundle.js''"] s3
  have c3: "\<not> fst (shouldInclude envW ?p ''proj/dist/bundle.js'' emptyState)"
    by blast
  from filter_stages[OF ok, of ?p "''data/bin.dat''"] s4
  have c4: "\<not> fst (shouldInclude envW ?p ''data/bin.dat'' emptyState)"
    by blast
  from filter_stages[OF ok, of ?p "''data/text.txt''"] s5
  have c5: "fst (shouldInclude envW ?p ''data/text.txt'' emptyState)"
    by blast
  from filter_stages[OF ok, of ?q "''proj/dist/bundle.js''"] s6
  have c6: "fst (shouldInclude envW ?q ''proj/dist/bundle.js'' emptyState)"
    by blast
  from ok s1 s2 s3 s4(1) s6(1) c1 c2 c3 c4 c5 c6 show ?thesis
    by (intro conjI)
qed

text \<open>
  C7 (as amended). A file that stages 1 to 3 do not exclude: with the binary check
  enabled, a file that can be read is excluded exactly when one of its first
  min(size, 1024) bytes is zero, and a file that cannot be opened or read is included,
  whatever its bytes; with the check disabled the file is included.
\<close>

theorem binary_check_decides:
  assumes "\<not> fst (shouldSkipDir e p path s)"
  shows "(\<not> NoBinaryCheck (config p) \<and> Open e path = Some (Content bs) \<longrightarrow>
            (\<not> fst (shouldInclude e p path s)) = (0 \<in> set (take (min (length bs) 1024) bs)))
         \<and> (Open e path = None \<or> Open e path = Some ReadErr \<longrightarrow>
              fst (shouldInclude e p path s))
         \<and> (NoBinaryCheck (config p) \<longrightarrow> fst (shouldInclude e p path s))"
  using assms
  by (auto simp: shouldInclude_form binaryContent_zeroInHead zeroInHead_def)

theorem binary_check_decides_witness:
  "\<not> fst (shouldSkipDir envW (fst (New envW cfgDefault)) ''data/bin.dat'' emptyState)
   \<and> \<not> NoBinaryCheck (config (fst (New envW cfgDefault)))
   \<and> Open envW ''data/bin.dat'' = Some (Content [98, 0, 99])
   \<and> \<not> fst (shouldInclude envW (fst (New envW cfgDefault)) ''data/bin.dat'' emptyState)
   \<and> Open envW ''data/text.txt'' = Some (Content [116, 120, 116])
   \<and> fst (shouldInclude envW (fst (New envW cfgDefault)) ''data/text.txt'' emptyState)
   \<and> Open envW ''data/secret.key'' = None
   \<and> fst (shouldInclude envW (fst (New envW cfgDefault)) ''data/secret.key'' emptyState)
   \<and> NoBinaryCheck (config (fst (New envW (cfgDefault\<lparr>NoBinaryCheck := True\<rparr>))))
   \<and> fst (shouldInclude envW (fst (New envW (cfgDefault\<lparr>NoBinaryCheck := True\<rparr>)))
            ''data/bin.dat'' emptyState)"
proof -
  let ?p = "fst (New envW cfgDefault)"
  let ?q = "fst (New envW (cfgDefault\<lparr>NoBinaryCheck := True\<rparr>))"
  have k1: "\<not> fst (shouldSkipDir envW ?p ''data/bin.dat'' emptyState)"
    and k2: "\<not> fst (shouldSkipDir envW ?p ''data/text.txt'' emptyState)"
    and k3: "\<not> fst (shouldSkipDir envW ?p ''data/secret.key'' emptyState)"
    and k4: "\<not> fst (shouldSkipDir envW ?q ''data/bin.dat'' emptyState)"
    by code_simp+
  have c: "\<not> NoBinaryCheck (config ?p)" "NoBinaryCheck (config ?q)"
    by code_simp+
  have o1: "Open envW ''data/bin.dat'' = Some (Content [98, 0, 99])"
    and o2: "Open envW ''data/text.txt'' = Some (Content [116, 120, 116])"
    and o3: "Open envW ''data/secret.key'' = None"
    by code_simp+
  from binary_check_decides[OF k1, of "[98, 0, 99]"] c(1) o1
  have r1: "\<not> fst (shouldInclude envW ?p ''data/bin.dat'' emptyState)"
    by simp
  from binary_check_decides[OF k2, of "[116, 120, 116]"] c(1) o2
  have r2: "fst (shouldInclude envW ?p ''data/text.txt'' emptyState)"
    by simp
  from binary_check_decides[OF k3, of "[]"] o3
  have r3: "fst (shouldInclude envW ?p ''data/secret.key'' emptyState)"
    by simp
  from binary_check_decides[OF k4, of "[]"] c(2)
  have r4: "fst (shouldInclude envW ?q ''data/bin.dat'' emptyState)"
    by simp
  from k1 c o1 o2 o3 r1 r2 r3 r4 show ?thesis
    by (intro conjI)
qed

text \<open>
  C7, the claim as stated: the regular file \<^verbatim>\<open>data/secret.key\<close> holds a zero byte among
  its first bytes and is not excluded by stages 1 to 3, but it cannot be opened; with the
  binary check enabled the filter includes it.
\<close>

theorem binary_check_counterexample:
  "statW [''w'', ''data'', ''secret.key''] = Some False
   \<and> map_of storedW [''w'', ''data'', ''secret.key''] = Some (False, [115, 0, 107])
   \<and> (0 :: 8 word) \<in> set (take (min (length [115, 0, 107 :: 8 word]) 1024) [115, 0, 107])
   \<and> Open envW ''data/secret.key'' = None
   \<and> \<not> NoBinaryCheck (config (fst (New envW cfgDefault)))
   \<and> \<not> fst (shouldSkipDir envW (fst (New envW cfgDefault)) ''data/secret.key'' emptyState)
   \<and> fst (shouldInclude envW (fst (New envW cfgDefault)) ''data/secret.key'' emptyState)"
  by code_simp







lemma logGrows_refl [simp]: "logGrows s s"
  by (simp add: logGrows_def)

lemma logGrows_trans: "logGrows s s1 \<Longrightarrow> logGrows s1 s2 \<Longrightarrow> logGrows s s2"
  by (auto simp: logGrows_def)

lemma logGrows_emit [simp]: "logGrows s (emit ev s)"
  by (simp add: logGrows_def)

lemma logGrows_finalFiles [simp]: "logGrows s (s'\<lparr>finalFiles := fs\<rparr>) = logGrows s s'"
  by (simp add: logGrows_def)

lemma logGrows_mem: "logGrows s s' \<Longrightarrow> ev \<in> set (events s) \<Longrightarrow> ev \<in> set (events s')"
  by (auto simp: logGrows_def)

lemma shouldSkipDir_logGrows: "logGrows s (snd (shouldSkipDir e p path s))"
  using shouldSkipDir_events[of e p path s] by (auto simp: logGrows_def)

lemma shouldInclude_logGrows: "logGrows s (snd (shouldInclude e p path s))"
  using shouldSkipDir_logGrows[of s e p path]
  by (auto simp: shouldInclude_form intro: logGrows_trans)

lemma walkFn_logGrows: "logGrows s (snd (walkFn e p root path isDir err s))"
  by (simp add: walkFn_def case_prod_beta shouldSkipDir_logGrows shouldInclude_logGrows)

lemma walk_logGrows:
  "logGrows s (snd (walkDir e p root path nd s))"
  "logGrows s (snd (walkEntries e p root path nds s))"
proof (induction e p root path nd s and e p root path nds s rule: walkDir_walkEntries.induct)
  case (1 e p root path n s)
  show ?case by (simp add: walkFn_logGrows)
next
  case (2 e p root path n readable dirs s)
  let ?s1 = "if path \<noteq> root then snd (shouldSkipDir e p path s) else s"
  have g1: "logGrows s (emit (ReadDirEv path) ?s1)"
    using shouldSkipDir_logGrows[of s e p path] by (auto intro: logGrows_trans)
  show ?case
  proof (cases "path \<noteq> root \<and> fst (shouldSkipDir e p path s)")
    case True
    then show ?thesis
      by (simp add: walkDir_dir shouldSkipDir_logGrows)
  next
    case enter: False
    show ?thesis
    proof (cases readable)
      case True
      have fn: "(Ok, ?s1) = walkFn e p root path True False s"
        using enter by (auto simp: walkFn_dir)
      have "logGrows (emit (ReadDirEv path) ?s1)
              (snd (walkEntries e p root path dirs (emit (ReadDirEv path) ?s1)))"
        using "2.IH"(1)[OF fn _ True] by simp
      with g1 have "logGrows s (snd (walkEntries e p root path dirs (emit (ReadDirEv path) ?s1)))"
        by (rule logGrows_trans)
      with enter True show ?thesis
        by (auto simp: walkDir_dir Let_def)
    next
      case False
      with enter g1 show ?thesis
        by (auto simp: walkDir_dir Let_def)
    qed
  qed
next
  case (3 e p root path s)
  show ?case by simp
next
  case (4 e p root path d1 rest s)
  let ?o = "walkDir e p root (Join path (Name d1)) d1 s"
  have g1: "logGrows s (snd ?o)"
    by (rule "4.IH"(1))
  show ?case
  proof (cases "fst ?o = Ok")
    case True
    then have "(Ok, snd ?o) = ?o"
      by (metis prod.collapse)
    from "4.IH"(2)[OF this refl] have "logGrows (snd ?o) (snd (walkEntries e p root path rest (snd ?o)))" .
    with g1 have "logGrows s (snd (walkEntries e p root path rest (snd ?o)))"
      by (rule logGrows_trans)
    with True show ?thesis
      by (simp add: case_prod_beta)
  next
    case False
    with g1 show ?thesis
      by (simp add: case_prod_beta)
  qed
qed

lemma WalkDir_logGrows: "logGrows s (snd (WalkDir e p root s))"
  by (simp add: WalkDir_def case_prod_beta walkFn_logGrows walk_logGrows split: option.splits)

lemma processPath_logGrows: "logGrows s (processPath e p path s)"
proof -
  have "logGrows s (emit ev (snd (WalkDir e p path s)))" for ev
    using WalkDir_logGrows[of s e p path] logGrows_emit by (rule logGrows_trans)
  then show ?thesis
    using WalkDir_logGrows[of s e p path] shouldInclude_logGrows[of s e p path]
    by (simp add: processPath_def case_prod_beta Let_def split: option.splits bool.splits)
qed

lemma fold_processPath_logGrows: "logGrows s (fold (processPath e p) cs s)"
proof (induction cs arbitrary: s)
  case Nil
  show ?case by simp
next
  case (Cons c cs)
  from processPath_logGrows Cons.IH show ?case
    unfolding fold_simps by (rule logGrows_trans)
qed

lemma processPath_warns:
  assumes "cacheOk e s" and "Stat e c = Some True" and "fst (WalkDirSpec e p c) = Failed"
  shows "Warn (WalkError c) \<in> set (events (processPath e p c s))"
proof -
  have "fst (WalkDir e p c s) = Failed"
    using WalkDir_agrees[OF assms(1), of p c] assms(3) by (simp add: walkAgrees_def)
  with assms(2) show ?thesis
    by (simp add: processPath_def case_prod_beta Let_def)
qed

lemma fold_processPath_warns:
  assumes "cacheOk e s" and "c \<in> set cs" and "Stat e c = Some True"
    and "fst (WalkDirSpec e p c) = Failed"
  shows "Warn (WalkError c) \<in> set (events (fold (processPath e p) cs s))"
  using assms(1,2)
proof (induction cs arbitrary: s)
  case Nil
  then show ?case by simp
next
  case (Cons x cs)
  have ok: "cacheOk e (processPath e p x s)"
    using Cons.prems(1) by (rule processPath_agrees(2))
  show ?case
  proof (cases "x = c")
    case True
    have "Warn (WalkError c) \<in> set (events (processPath e p c s))"
      using Cons.prems(1) assms(3,4) by (rule processPath_warns)
    with fold_processPath_logGrows[of "processPath e p c s" e p cs] True show ?thesis
      by (simp add: logGrows_mem)
  next
    case False
    with Cons.prems(2) have "c \<in> set cs"
      by simp
    from Cons.IH[OF ok this] show ?thesis
      by simp
  qed
qed

lemma resolve_warns:
  assumes "enumerates (rangeExpanded e)" and "c \<in> set (candidates e paths)"
    and "Stat e c = Some True" and "fst (WalkDirSpec e (fst (New e cfg)) c) = Failed"
  shows "Warn (WalkError c) \<in> set (events (snd (resolve e cfg paths)))"
proof -
  let ?p = "fst (New e cfg)"
  let ?x = "expandAll e paths [] (snd (New e cfg))"
  let ?s1 = "(snd ?x)\<lparr>finalFiles := []\<rparr>"
  let ?cs = "rangeExpanded e (fst ?x)"
  have ok: "cacheOk e ?s1"
    using New_cacheOk[of e cfg] expandAll_keys(3)[of e paths "[]" "snd (New e cfg)"]
    by (simp add: cacheOk_def)
  have "c \<in> set ?cs"
    using assms(1,2) by (simp add: enumerates_def expandAll_keys(1))
  from fold_processPath_warns[OF ok this assms(3,4)] show ?thesis
    by (simp add: resolve_def ProcessPaths_def case_prod_beta Let_def)
qed

lemma walkEntries_keeps_collected:
  assumes "cacheOk e s"
  shows "set (finalFiles s) \<subseteq> set (finalFiles (snd (walkEntries e p root parent nds s)))"
    and "set (finalFiles s) \<subseteq> set (finalFiles (snd (walkDir e p root path nd s)))"
  using walk_refines[OF assms] by (auto simp: walkAgrees_def)

lemma resolve_holds_walk:
  assumes "enumerates (rangeExpanded e)" and "enumerates (rangeFinal e)"
    and "c \<in> set (candidates e paths)" and "Stat e c = Some True" and "cacheOk e s"
  shows "set (finalFiles (snd (WalkDir e (fst (New e cfg)) c s)))
           \<subseteq> set (finalFiles s) \<union> set (fst (resolve e cfg paths))"
proof -
  let ?p = "fst (New e cfg)"
  have "set (finalFiles (snd (WalkDir e ?p c s)))
          = set (finalFiles s) \<union> set (snd (WalkDirSpec e ?p c))"
    using WalkDir_agrees[OF assms(5), of ?p c] by (simp add: walkAgrees_def)
  moreover have "candidateFiles e ?p c = snd (WalkDirSpec e ?p c)"
    using assms(4) by (simp add: candidateFiles_def)
  ultimately show ?thesis
    using assms(3) by (auto simp: resolve_files[OF assms(1,2)])
qed

lemma resolve_holds_file:
  assumes "enumerates (rangeExpanded e)" and "enumerates (rangeFinal e)"
    and "c \<in> set (candidates e paths)" and "Stat e c = Some False" and "cacheOk e s"
    and "fst (shouldInclude e (fst (New e cfg)) c s)"
  shows "c \<in> set (fst (resolve e cfg paths))"
proof -
  let ?p = "fst (New e cfg)"
  have "passesFilter e ?p c"
    using assms(5,6) by (simp add: shouldInclude_verdict)
  then have "c \<in> set (candidateFiles e ?p c)"
    using assms(4) by (simp add: candidateFiles_def)
  with assms(3) show ?thesis
    by (auto simp: resolve_files[OF assms(1,2)])
qed

text \<open>
  C5 (as amended). A directory that cannot be listed, and that the filter does not prune,
  makes its walk fail; a failing entry ends the listing it is in: the files collected
  from the entries before it stay collected, the entries after it are not visited; and
  the failure of a listing is the failure of its directory, up to the start of the walk.
  \<^verbatim>\<open>ProcessPaths\<close> then writes one warning for that input and goes on with the other
  inputs from the state the walk left. For the whole resolution this means: the warning
  for the failed input is in the log; whatever the walk of an input collects on its own,
  failed or not, is in the resolved list, and so is every file input that passes the
  filter. The resolution has no error outcome.
\<close>

theorem unreadable_directory_stops_walk:
  "(\<not> (path \<noteq> root \<and> fst (shouldSkipDir e p path s)) \<longrightarrow>
      fst (walkDir e p root path (Dir_node n False dirs) s) = Failed
      \<and> finalFiles (snd (walkDir e p root path (Dir_node n False dirs) s)) = finalFiles s)
   \<and> (fst (walkEntries e p root parent pre s) = Ok
        \<and> fst (walkDir e p root (Join parent (Name d)) d
                 (snd (walkEntries e p root parent pre s))) = Failed \<longrightarrow>
      walkEntries e p root parent (pre @ d # post) s
        = walkDir e p root (Join parent (Name d)) d (snd (walkEntries e p root parent pre s)))
   \<and> (cacheOk e s \<longrightarrow>
        set (finalFiles s) \<subseteq> set (finalFiles (snd (walkEntries e p root parent pre s)))
        \<and> set (finalFiles s) \<subseteq> set (finalFiles (snd (walkDir e p root path nd s))))
   \<and> (\<not> (path \<noteq> root \<and> fst (shouldSkipDir e p path s)) \<longrightarrow>
      walkDir e p root path (Dir_node n True dirs) s
        = walkEntries e p root path dirs
            (emit (ReadDirEv path) (if path \<noteq> root then snd (shouldSkipDir e p path s) else s)))
   \<and> (Stat e root = Some True \<and> fst (WalkDir e p root s) = Failed \<longrightarrow>
      processPath e p root s = emit (Warn (WalkError root)) (snd (WalkDir e p root s)))
   \<and> (enumerates (rangeExpanded e) \<and> c \<in> set (candidates e paths) \<and> cacheOk e s
        \<and> Stat e c = Some True \<and> fst (WalkDir e (fst (New e cfg)) c s) = Failed \<longrightarrow>
      Warn (WalkError c) \<in> set (events (snd (resolve e cfg paths))))
   \<and> (enumerates (rangeExpanded e) \<and> enumerates (rangeFinal e)
        \<and> c \<in> set (candidates e paths) \<and> cacheOk e s \<and> Stat e c = Some True \<longrightarrow>
      set (finalFiles (snd (WalkDir e (fst (New e cfg)) c s)))
        \<subseteq> set (finalFiles s) \<union> set (fst (resolve e cfg paths)))
   \<and> (enumerates (rangeExpanded e) \<and> enumerates (rangeFinal e)
        \<and> c \<in> set (candidates e paths) \<and> cacheOk e s \<and> Stat e c = Some False
        \<and> fst (shouldInclude e (fst (New e cfg)) c s) \<longrightarrow>
      c \<in> set (fst (resolve e cfg paths)))"
proof (intro conjI impI)
  assume h: "\<not> (path \<noteq> root \<and> fst (shouldSkipDir e p path s))"
  then show "fst (walkDir e p root path (Dir_node n False dirs) s) = Failed"
    by (auto simp: walkDir_dir Let_def)
  from h show "finalFiles (snd (walkDir e p root path (Dir_node n False dirs) s)) = finalFiles s"
    by (auto simp: walkDir_dir Let_def)
  from h show "walkDir e p root path (Dir_node n True dirs) s
        = walkEntries e p root path dirs
            (emit (ReadDirEv path) (if path \<noteq> root then snd (shouldSkipDir e p path s) else s))"
    by (auto simp: walkDir_dir Let_def)
next
  assume h: "fst (walkEntries e p root parent pre s) = Ok
        \<and> fst (walkDir e p root (Join parent (Name d)) d
                 (snd (walkEntries e p root parent pre s))) = Failed"
  then have "walkEntries e p root parent pre s = (Ok, snd (walkEntries e p root parent pre s))"
    by (metis prod.collapse)
  with h show "walkEntries e p root parent (pre @ d # post) s
        = walkDir e p root (Join parent (Name d)) d (snd (walkEntries e p root parent pre s))"
    by (intro walkEntries_append_failed) simp_all
next
  assume ok: "cacheOk e s"
  then show "set (finalFiles s) \<subseteq> set (finalFiles (snd (walkEntries e p root parent pre s)))"
    by (rule walkEntries_keeps_collected)
  from ok show "set (finalFiles s) \<subseteq> set (finalFiles (snd (walkDir e p root path nd s)))"
    by (rule walkEntries_keeps_collected)
next
  assume "Stat e root = Some True \<and> fst (WalkDir e p root s) = Failed"
  then show "processPath e p root s = emit (Warn (WalkError root)) (snd (WalkDir e p root s))"
    by (simp add: processPath_def case_prod_beta Let_def)
next
  assume h: "enumerates (rangeExpanded e) \<and> c \<in> set (candidates e paths) \<and> cacheOk e s
        \<and> Stat e c = Some True \<and> fst (WalkDir e (fst (New e cfg)) c s) = Failed"
  then have "fst (WalkDirSpec e (fst (New e cfg)) c) = Failed"
    using WalkDir_agrees[of e s "fst (New e cfg)" c] by (simp add: walkAgrees_def)
  with h show "Warn (WalkError c) \<in> set (events (snd (resolve e cfg paths)))"
    by (simp add: resolve_warns)
next
  assume "enumerates (rangeExpanded e) \<and> enumerates (rangeFinal e)
        \<and> c \<in> set (candidates e paths) \<and> cacheOk e s \<and> Stat e c = Some True"
  then show "set (finalFiles (snd (WalkDir e (fst (New e cfg)) c s)))
        \<subseteq> set (finalFiles s) \<union> set (fst (resolve e cfg paths))"
    by (intro resolve_holds_walk) simp_all
next
  assume "enumerates (rangeExpanded e) \<and> enumerates (rangeFinal e)
        \<and> c \<in> set (candidates e paths) \<and> cacheOk e s \<and> Stat e c = Some False
        \<and> fst (shouldInclude e (fst (New e cfg)) c s)"
  then show "c \<in> set (fst (resolve e cfg paths))"
    using resolve_holds_file[of e c paths s cfg] by simp
qed


theorem unreadable_directory_stops_walk_witness:
  "\<not> (''priv/locked'' \<noteq> ''priv''
        \<and> fst (shouldSkipDir envW (fst (New envW cfgDefault)) ''priv/locked'' emptyState))
   \<and> fst (walkDir envW (fst (New envW cfgDefault)) ''priv'' ''priv/locked''
            (Dir_node ''locked'' False []) emptyState) = Failed
   \<and> fst (walkEntries envW (fst (New envW cfgDefault)) ''priv'' ''priv'' [File ''a.txt'']
            emptyState) = Ok
   \<and> walkEntries envW (fst (New envW cfgDefault)) ''priv'' ''priv''
        ([File ''a.txt''] @ Dir_node ''locked'' False [] # [File ''z.txt'']) emptyState
       = walkDir envW (fst (New envW cfgDefault)) ''priv''
           (Join ''priv'' (Name (Dir_node ''locked'' False []))) (Dir_node ''locked'' False [])
           (snd (walkEntries envW (fst (New envW cfgDefault)) ''priv'' ''priv'' [File ''a.txt'']
                  emptyState))
   \<and> Stat envW ''priv'' = Some True
   \<and> fst (WalkDir envW (fst (New envW cfgDefault)) ''priv'' emptyState) = Failed
   \<and> finalFiles (snd (WalkDir envW (fst (New envW cfgDefault)) ''priv'' emptyState))
       = [''priv/a.txt'']
   \<and> processPath envW (fst (New envW cfgDefault)) ''priv'' emptyState
       = emit (Warn (WalkError ''priv''))
           (snd (WalkDir envW (fst (New envW cfgDefault)) ''priv'' emptyState))
   \<and> ''priv'' \<in> set (candidates envW [''priv'', ''data'', ''proj/file1.txt''])
   \<and> Warn (WalkError ''priv'')
        \<in> set (events (snd (resolve envW cfgDefault [''priv'', ''data'', ''proj/file1.txt''])))
   \<and> set (finalFiles (snd (WalkDir envW (fst (New envW cfgDefault)) ''priv'' emptyState)))
        \<subseteq> set (finalFiles emptyState)
            \<union> set (fst (resolve envW cfgDefault [''priv'', ''data'', ''proj/file1.txt'']))
   \<and> Stat envW ''proj/file1.txt'' = Some False
   \<and> ''proj/file1.txt'' \<in> set (fst (resolve envW cfgDefault [''priv'', ''data'', ''proj/file1.txt'']))
   \<and> fst (resolve envW cfgDefault [''priv'', ''data'', ''proj/file1.txt''])
       = [''data/secret.key'', ''data/text.txt'', ''priv/a.txt'', ''proj/file1.txt'']"
proof -
  let ?p = "fst (New envW cfgDefault)"
  let ?d = "Dir_node ''locked'' False []"
  let ?paths = "[''priv'', ''data'', ''proj/file1.txt'']"
  note ok = cacheOk_emptyState[of envW]
  have h1: "\<not> (''priv/locked'' \<noteq> ''priv'' \<and> fst (shouldSkipDir envW ?p ''priv/locked'' emptyState))"
    by code_simp
  have h2: "fst (walkEntries envW ?p ''priv'' ''priv'' [File ''a.txt''] emptyState) = Ok"
    by code_simp
  have h3: "fst (walkDir envW ?p ''priv'' (Join ''priv'' (Name ?d)) ?d
                   (snd (walkEntries envW ?p ''priv'' ''priv'' [File ''a.txt''] emptyState))) = Failed"
    by code_simp
  have h4: "Stat envW ''priv'' = Some True"
    by code_simp
  have h5: "fst (WalkDir envW ?p ''priv'' emptyState) = Failed"
    by code_simp
  have h6: "''priv'' \<in> set (candidates envW ?paths)"
    by code_simp
  have h7: "Stat envW ''proj/file1.txt'' = Some False"
      "''proj/file1.txt'' \<in> set (candidates envW ?paths)"
      "fst (shouldInclude envW ?p ''proj/file1.txt'' emptyState)"
    by code_simp+
  have v1: "finalFiles (snd (WalkDir envW ?p ''priv'' emptyState)) = [''priv/a.txt'']"
    by code_simp
  have v2: "fst (resolve envW cfgDefault ?paths)
       = [''data/secret.key'', ''data/text.txt'', ''priv/a.txt'', ''proj/file1.txt'']"
    by code_simp
  note t1 = unreadable_directory_stops_walk[where e = envW and p = ?p and root = "''priv''"
         and path = "''priv/locked''" and s = emptyState and n = "''locked''" and dirs = "[]"
         and parent = "''priv''" and pre = "[File ''a.txt'']" and d = ?d
         and post = "[File ''z.txt'']" and nd = ?d and c = "''priv''" and cfg = cfgDefault
         and paths = ?paths]
  note t2 = unreadable_directory_stops_walk[where e = envW and p = ?p and root = "''priv''"
         and path = "''priv/locked''" and s = emptyState and n = "''locked''" and dirs = "[]"
         and parent = "''priv''" and pre = "[File ''a.txt'']" and d = ?d
         and post = "[File ''z.txt'']" and nd = ?d and c = "''proj/file1.txt''"
         and cfg = cfgDefault and paths = ?paths]
  from t1 h1 have c1: "fst (walkDir envW ?p ''priv'' ''priv/locked'' ?d emptyState) = Failed"
    by blast
  from t1 h2 h3 have c2: "walkEntries envW ?p ''priv'' ''priv''
        ([File ''a.txt''] @ ?d # [File ''z.txt'']) emptyState
       = walkDir envW ?p ''priv'' (Join ''priv'' (Name ?d)) ?d
           (snd (walkEntries envW ?p ''priv'' ''priv'' [File ''a.txt''] emptyState))"
    by blast
  from t1 h4 h5 have c3: "processPath envW ?p ''priv'' emptyState
       = emit (Warn (WalkError ''priv'')) (snd (WalkDir envW ?p ''priv'' emptyState))"
    by blast
  from t1 enumerates_envW h6 ok h4 h5
  have c4: "Warn (WalkError ''priv'') \<in> set (events (snd (resolve envW cfgDefault ?paths)))"
    by blast
  from t1 enumerates_envW h6 ok h4
  have c5: "set (finalFiles (snd (WalkDir envW ?p ''priv'' emptyState)))
        \<subseteq> set (finalFiles emptyState) \<union> set (fst (resolve envW cfgDefault ?paths))"
    by blast
  from t2 enumerates_envW h7 ok
  have c6: "''proj/file1.txt'' \<in> set (fst (resolve envW cfgDefault ?paths))"
    by blast
  from h1 c1 h2 c2 h4 h5 v1 c3 h6 c4 c5 h7(1) c6 v2 show ?thesis
    by (intro conjI)
qed

text \<open>
  C5, the claim as stated: the tree of the input \<^verbatim>\<open>priv\<close> holds the file
  \<^verbatim>\<open>priv/a.txt\<close>, the unreadable directory \<^verbatim>\<open>priv/locked\<close> and, after it in the
  listing, the file \<^verbatim>\<open>priv/z.txt\<close>, which passes the filter; resolving \<^verbatim>\<open>priv\<close>
  returns \<^verbatim>\<open>priv/a.txt\<close> alone.
\<close>

theorem unreadable_directory_counterexample:
  "Lstree envW ''priv''
     = Some (Dir_node ''priv'' True
               [File ''a.txt'', Dir_node ''locked'' False [], File ''z.txt''])
   \<and> fst (shouldInclude envW (fst (New envW cfgDefault)) ''priv/z.txt'' emptyState)
   \<and> fst (resolve envW cfgDefault [''priv'']) = [''priv/a.txt'']"
  by code_simp

end
